theory Spec2Isabelle
  imports Main "HOL-Library.Sublist" "HOL-Library.Multiset"
begin

section \<open>Host-language values\<close>

text \<open>
  Pastecase is a browser application: a wrapper class around an IndexedDB object store
  (\<open>PastecaseDB\<close>) and an application class (\<open>PastecaseApp\<close>) that keeps the loaded clips,
  the search text, the category filter and the sort order, and derives the displayed
  list from them.

  Strings are \<open>char list\<close>. \<open>toLowerCase\<close> lowers the letters A to Z and keeps every other
  character; \<open>trim\<close> removes the ASCII white space and line terminators at both ends.
  A value that may be \<open>undefined\<close> or \<open>null\<close> is an \<open>option\<close>, with \<open>None\<close> for the missing
  value. Calling a method on a missing value raises \<open>TypeError\<close>; the object store raises
  \<open>ConstraintError\<close> when its key generator is used up.
\<close>

datatype js_error = TypeError | ConstraintError

definition lower_char :: "char \<Rightarrow> char" where
  "lower_char c =
     (case map_of (zip ''ABCDEFGHIJKLMNOPQRSTUVWXYZ'' ''abcdefghijklmnopqrstuvwxyz'') c of
        None \<Rightarrow> c
      | Some l \<Rightarrow> l)"

definition toLowerCase :: "string \<Rightarrow> string" where
  "toLowerCase s = map lower_char s"

text \<open>\<open>s.includes(q)\<close>: \<open>q\<close> occurs in \<open>s\<close> as a contiguous run of characters.\<close>

fun js_includes :: "string \<Rightarrow> string \<Rightarrow> bool" where
  "js_includes [] q = (q = [])"
| "js_includes (c # s) q = (prefix q (c # s) \<or> js_includes s q)"

definition startsWith :: "string \<Rightarrow> string \<Rightarrow> bool" where
  "startsWith s q = prefix q s"

definition endsWith :: "string \<Rightarrow> string \<Rightarrow> bool" where
  "endsWith s q = prefix (rev q) (rev s)"

definition is_ws :: "char \<Rightarrow> bool" where
  "is_ws c = (c \<in> set [CHR 0x09, CHR 0x0A, CHR 0x0B, CHR 0x0C, CHR 0x0D, CHR '' ''])"

definition trim :: "string \<Rightarrow> string" where
  "trim s = rev (dropWhile is_ws (rev (dropWhile is_ws s)))"

text \<open>\<open>s.split(sep)\<close> for a one-character separator: the empty string gives one empty piece.\<close>

fun split_on :: "char \<Rightarrow> string \<Rightarrow> string list" where
  "split_on sep [] = [[]]"
| "split_on sep (c # s) =
     (if c = sep then [] # split_on sep s
      else (case split_on sep s of [] \<Rightarrow> [[c]] | w # ws \<Rightarrow> (c # w) # ws))"

text \<open>Truthiness of a string and of a possibly missing string: only a non-empty string is truthy.\<close>

definition truthy_str :: "string \<Rightarrow> bool" where
  "truthy_str s = (s \<noteq> [])"

definition truthy :: "string option \<Rightarrow> bool" where
  "truthy v = (case v of None \<Rightarrow> False | Some s \<Rightarrow> truthy_str s)"

text \<open>
  \<open>v.toLowerCase().includes(q.toLowerCase())\<close>, with the fault of a method call on a
  missing receiver or argument written out.
\<close>

definition lowerIncludes :: "string option \<Rightarrow> string option \<Rightarrow> js_error + bool" where
  "lowerIncludes v q =
     (case v of
        None \<Rightarrow> Inl TypeError
      | Some s \<Rightarrow>
          (case q of
             None \<Rightarrow> Inl TypeError
           | Some t \<Rightarrow> Inr (js_includes (toLowerCase s) (toLowerCase t))))"

text \<open>\<open>x || y\<close> on booleans: \<open>y\<close> is evaluated, and may fault, only when \<open>x\<close> is false.\<close>

definition js_or :: "js_error + bool \<Rightarrow> js_error + bool \<Rightarrow> js_error + bool" where
  "js_or x y = (case x of Inl e \<Rightarrow> Inl e | Inr b \<Rightarrow> (if b then Inr True else y))"

text \<open>\<open>xs.some(p)\<close> and \<open>xs.filter(p)\<close> with a callback that may fault.\<close>

fun js_some :: "('a \<Rightarrow> js_error + bool) \<Rightarrow> 'a list \<Rightarrow> js_error + bool" where
  "js_some p [] = Inr False"
| "js_some p (x # xs) = js_or (p x) (js_some p xs)"

fun js_filter :: "('a \<Rightarrow> js_error + bool) \<Rightarrow> 'a list \<Rightarrow> js_error + 'a list" where
  "js_filter p [] = Inr []"
| "js_filter p (x # xs) =
     (case p x of
        Inl e \<Rightarrow> Inl e
      | Inr b \<Rightarrow>
          (case js_filter p xs of
             Inl e \<Rightarrow> Inl e
           | Inr ys \<Rightarrow> Inr (if b then x # ys else ys)))"

section \<open>Clips and the record store\<close>

text \<open>
  \<open>clip_data\<close> is the object a caller hands to \<open>saveClip\<close>; every call site gives \<open>type\<close>,
  \<open>content\<close>, \<open>tags\<close> and \<open>memo\<close>, and some give \<open>filename\<close>, \<open>filesize\<close> and \<open>mimeType\<close>.
  No call site gives an \<open>id\<close>. A stored clip adds the two timestamps (milliseconds since
  the epoch, which the ISO string written by \<open>toISOString\<close> and read back by \<open>new Date\<close>
  stands for) and the key the store assigned.
\<close>

record clip_data =
  clip_type :: string
  content :: string
  tags :: "string list"
  memo :: "string option"
  filename :: "string option"
  filesize :: "nat option"
  mimeType :: "string option"

record clip = clip_data +
  createdAt :: int
  updatedAt :: int
  clip_id :: nat

text \<open>
  The object store \<open>clips\<close> is created with \<open>keyPath: "id"\<close> and \<open>autoIncrement: true\<close>.
  Its state is the records in ascending key order, which is the order \<open>getAll\<close> returns,
  and the current number of its key generator, which starts at 1. The engine is taken to
  answer every request; the one rejection in the model is that of \<open>add\<close> when the key
  generator is used up.
\<close>

record store =
  records :: "clip list"
  keygen :: nat

text \<open>
  \<open>init\<close> opens the database; the upgrade handler creates the object store only when the
  database does not have it yet.
\<close>

definition db_init :: "store option \<Rightarrow> store" where
  "db_init existing =
     (case existing of None \<Rightarrow> \<lparr>records = [], keygen = 1\<rparr> | Some st \<Rightarrow> st)"

definition max_key :: nat where
  "max_key = 2 ^ 53"

text \<open>
  \<open>saveClip\<close>: the two timestamps are two readings of the clock, passed as \<open>now\<close>. \<open>add\<close>
  takes the generator's current number as key and increases the generator; above
  \<open>2 ^ 53\<close> the generator fails and the request is rejected.
\<close>

definition saveClip :: "int \<times> int \<Rightarrow> store \<Rightarrow> clip_data \<Rightarrow> js_error + (nat \<times> store)" where
  "saveClip now st clipData =
     (if max_key < keygen st then Inl ConstraintError
      else
        (let k = keygen st;
             c = \<lparr>clip_type = clip_type clipData, content = content clipData,
                  tags = tags clipData, memo = memo clipData,
                  filename = filename clipData, filesize = filesize clipData,
                  mimeType = mimeType clipData,
                  createdAt = fst now, updatedAt = snd now, clip_id = k\<rparr>
         in Inr (k, \<lparr>records = records st @ [c], keygen = k + 1\<rparr>)))"

definition getAllClips :: "store \<Rightarrow> clip list" where
  "getAllClips st = records st"

text \<open>\<open>delete\<close> removes the record with the key, and succeeds when there is none.\<close>

definition deleteClip :: "store \<Rightarrow> nat \<Rightarrow> js_error + store" where
  "deleteClip st i = Inr (st\<lparr>records := filter (\<lambda>c. clip_id c \<noteq> i) (records st)\<rparr>)"

text \<open>
  The three tests of the search callback after \<open>!query\<close>: content, guarded memo, tags.
  \<open>renderClips\<close> repeats them with \<open>currentSearch\<close> as the query.
\<close>

definition textMatches :: "string option \<Rightarrow> clip \<Rightarrow> js_error + bool" where
  "textMatches query c =
     js_or (lowerIncludes (Some (content c)) query)
       (js_or (if truthy (memo c) then lowerIncludes (memo c) query else Inr False)
          (js_some (\<lambda>tag. lowerIncludes (Some tag) query) (tags c)))"

definition matchesType :: "string option \<Rightarrow> clip \<Rightarrow> bool" where
  "matchesType ty c = (\<not> truthy ty \<or> Some (clip_type c) = ty)"

definition matchesQuery :: "string option \<Rightarrow> clip \<Rightarrow> js_error + bool" where
  "matchesQuery query c = js_or (Inr (\<not> truthy query)) (textMatches query c)"

definition searchClips :: "store \<Rightarrow> string option \<Rightarrow> string option \<Rightarrow> js_error + clip list" where
  "searchClips st query ty =
     js_filter
       (\<lambda>c. case matchesQuery query c of
               Inl e \<Rightarrow> Inl e
             | Inr mq \<Rightarrow> Inr (matchesType ty c \<and> mq))
       (getAllClips st)"

section \<open>The application\<close>

text \<open>
  The application state: the store, the loaded clips, the three view inputs, and what the
  page shows (the cards in the container, whether the empty-state element is hidden, and
  the notifications shown so far, oldest first).

  The repository holds two revisions of the application. The later one adds the dropped
  files (\<open>handleDrop\<close>, \<open>processDroppedFile\<close>) and a \<open>mimeType\<close> field in the clips of the two
  modals; the store functions, \<open>renderClips\<close> and the validation of the modals are the same
  in both. The modals below follow \<open>app.js\<close>.
\<close>

datatype toast_kind = Success | Failure

record app =
  db :: store
  clips :: "clip list"
  currentSort :: string
  currentFilter :: string
  currentSearch :: string
  rendered :: "clip list"
  emptyStateHidden :: bool
  toasts :: "(toast_kind \<times> string) list"

definition constructor :: "store \<Rightarrow> app" where
  "constructor st =
     \<lparr>db = st, clips = [], currentSort = ''newest'', currentFilter = [], currentSearch = [],
      rendered = [], emptyStateHidden = False, toasts = []\<rparr>"

definition showToast :: "string \<Rightarrow> toast_kind \<Rightarrow> app \<Rightarrow> app" where
  "showToast message kind a = a\<lparr>toasts := toasts a @ [(kind, message)]\<rparr>"

definition showSuccess :: "string \<Rightarrow> app \<Rightarrow> app" where
  "showSuccess message a = showToast message Success a"

definition showError :: "string \<Rightarrow> app \<Rightarrow> app" where
  "showError message a = showToast message Failure a"

definition loadClips :: "app \<Rightarrow> app" where
  "loadClips a = a\<lparr>clips := getAllClips (db a)\<rparr>"

text \<open>
  \<open>Array.prototype.sort\<close> is stable. With a comparator that orders by a key, every stable
  sort returns the list that this insertion sort returns.
\<close>

fun js_insert :: "('a \<Rightarrow> 'a \<Rightarrow> int) \<Rightarrow> 'a \<Rightarrow> 'a list \<Rightarrow> 'a list" where
  "js_insert cmp x [] = [x]"
| "js_insert cmp x (y # ys) = (if cmp x y \<le> 0 then x # y # ys else y # js_insert cmp x ys)"

definition js_sort :: "('a \<Rightarrow> 'a \<Rightarrow> int) \<Rightarrow> 'a list \<Rightarrow> 'a list" where
  "js_sort cmp xs = foldr (js_insert cmp) xs []"

definition compareClips :: "string \<Rightarrow> clip \<Rightarrow> clip \<Rightarrow> int" where
  "compareClips sortOrder a b =
     (let dateA = createdAt a; dateB = createdAt b
      in if sortOrder = ''newest'' then dateB - dateA else dateA - dateB)"

text \<open>
  \<open>renderClips\<close>: search filter, category filter, sort, then the cards. \<open>filter\<close> makes a new
  array; when neither filter runs, \<open>filteredClips\<close> is the array \<open>this.clips\<close> itself and the
  sort reorders the loaded clips in place.
\<close>

definition renderClips :: "app \<Rightarrow> js_error + app" where
  "renderClips a =
     (case (if truthy_str (currentSearch a)
            then js_filter (textMatches (Some (currentSearch a))) (clips a)
            else Inr (clips a)) of
        Inl e \<Rightarrow> Inl e
      | Inr found \<Rightarrow>
          (let filteredClips =
                 (if truthy_str (currentFilter a)
                  then filter (\<lambda>c. clip_type c = currentFilter a) found
                  else found);
               sorted = js_sort (compareClips (currentSort a)) filteredClips
           in Inr (a\<lparr>clips :=
                        (if truthy_str (currentSearch a) \<or> truthy_str (currentFilter a)
                         then clips a else sorted),
                      rendered := sorted,
                      emptyStateHidden := (sorted \<noteq> [])\<rparr>)))"

definition handleSearch :: "string \<Rightarrow> app \<Rightarrow> js_error + app" where
  "handleSearch query a = renderClips (a\<lparr>currentSearch := query\<rparr>)"

definition handleFilter :: "string \<Rightarrow> app \<Rightarrow> js_error + app" where
  "handleFilter flt a = renderClips (a\<lparr>currentFilter := flt\<rparr>)"

definition handleSort :: "string \<Rightarrow> app \<Rightarrow> js_error + app" where
  "handleSort sortOrder a = renderClips (a\<lparr>currentSort := sortOrder\<rparr>)"

text \<open>
  A file has a name, a MIME type and its bytes. \<open>readAsText\<close> gives the bytes as text;
  \<open>readAsDataURL\<close> gives \<open>data:\<close>, the MIME type (\<open>application/octet-stream\<close> when the file
  has none), \<open>;base64,\<close> and the bytes in base 64. Reading is taken to succeed.
\<close>

record js_file =
  fname :: string
  ftype :: string
  fbytes :: string

definition fsize :: "js_file \<Rightarrow> nat" where
  "fsize f = length (fbytes f)"

definition b64_char :: "nat \<Rightarrow> char" where
  "b64_char n =
     ''ABCDEFGHIJKLMNOPQRSTUVWXYZabcdefghijklmnopqrstuvwxyz0123456789+/'' ! (n mod 64)"

fun base64 :: "nat list \<Rightarrow> string" where
  "base64 [] = []"
| "base64 [a] = [b64_char (a div 4), b64_char ((a mod 4) * 16), CHR ''='', CHR ''='']"
| "base64 [a, b] =
     [b64_char (a div 4), b64_char ((a mod 4) * 16 + b div 16),
      b64_char ((b mod 16) * 4), CHR ''='']"
| "base64 (a # b # c # rest) =
     [b64_char (a div 4), b64_char ((a mod 4) * 16 + b div 16),
      b64_char ((b mod 16) * 4 + c div 64), b64_char (c mod 64)] @ base64 rest"

definition readAsText :: "js_file \<Rightarrow> string" where
  "readAsText f = fbytes f"

definition readAsDataURL :: "js_file \<Rightarrow> string" where
  "readAsDataURL f =
     ''data:'' @ (if ftype f = [] then ''application/octet-stream'' else ftype f)
       @ '';base64,'' @ base64 (map of_char (fbytes f))"

text \<open>The inputs of the two modals, and the tag list read from a comma-separated input.\<close>

record text_form =
  text_content :: string
  text_tags :: string
  text_memo :: string

record image_form =
  image_input :: "js_file option"
  image_tags :: string
  image_memo :: string

definition parseTags :: "string \<Rightarrow> string list" where
  "parseTags s = filter truthy_str (map trim (split_on CHR '','' s))"

text \<open>
  After a store call every action reloads all clips and renders; inside a \<open>try\<close> block a
  fault of either step goes to the \<open>catch\<close> with the state reached so far.
\<close>

definition reloadAndRender :: "app \<Rightarrow> js_error + app" where
  "reloadAndRender a = renderClips (loadClips a)"

definition saveTextClip :: "int \<times> int \<Rightarrow> text_form \<Rightarrow> app \<Rightarrow> app" where
  "saveTextClip now form a =
     (let the_content = trim (text_content form);
          the_tags = parseTags (text_tags form);
          the_memo = trim (text_memo form)
      in if \<not> truthy_str the_content then showError ''Please enter some text'' a
         else
           (case saveClip now (db a)
                   \<lparr>clip_type = ''text'', content = the_content, tags = the_tags,
                    memo = Some the_memo, filename = None, filesize = None,
                    mimeType = None\<rparr> of
              Inl e \<Rightarrow> showError ''Failed to save clip'' a
            | Inr (k, st) \<Rightarrow>
                (case reloadAndRender (a\<lparr>db := st\<rparr>) of
                   Inl e \<Rightarrow> showError ''Failed to save clip'' (loadClips (a\<lparr>db := st\<rparr>))
                 | Inr a' \<Rightarrow> showSuccess ''Text clip saved successfully'' a')))"

definition saveImageClip :: "int \<times> int \<Rightarrow> image_form \<Rightarrow> app \<Rightarrow> app" where
  "saveImageClip now form a =
     (let the_tags = parseTags (image_tags form);
          the_memo = trim (image_memo form)
      in case image_input form of
           None \<Rightarrow> showError ''Please select an image file'' a
         | Some f \<Rightarrow>
             (case saveClip now (db a)
                     \<lparr>clip_type = ''image'', content = readAsDataURL f, tags = the_tags,
                      memo = Some the_memo, filename = Some (fname f),
                      filesize = Some (fsize f), mimeType = None\<rparr> of
                Inl e \<Rightarrow> showError ''Failed to save clip'' a
              | Inr (k, st) \<Rightarrow>
                  (case reloadAndRender (a\<lparr>db := st\<rparr>) of
                     Inl e \<Rightarrow> showError ''Failed to save clip'' (loadClips (a\<lparr>db := st\<rparr>))
                   | Inr a' \<Rightarrow> showSuccess ''Image clip saved successfully'' a')))"

text \<open>The application's delete: \<open>confirmed\<close> is the answer to the confirmation dialog.\<close>

definition app_deleteClip :: "bool \<Rightarrow> nat \<Rightarrow> app \<Rightarrow> app" where
  "app_deleteClip confirmed i a =
     (if \<not> confirmed then a
      else
        (case deleteClip (db a) i of
           Inl e \<Rightarrow> showError ''Failed to delete clip'' a
         | Inr st \<Rightarrow>
             (case reloadAndRender (a\<lparr>db := st\<rparr>) of
                Inl e \<Rightarrow> showError ''Failed to delete clip'' (loadClips (a\<lparr>db := st\<rparr>))
              | Inr a' \<Rightarrow> showSuccess ''Clip deleted successfully'' a')))"

text \<open>
  Dropped files. \<open>processDroppedFile\<close> shows the error for a file that is not supported; for
  an image or a text file it creates a reader, registers the \<open>onload\<close> callback and starts
  the read, and returns. Its result is the state and the reader it started, if any.
  \<open>handleDrop\<close> calls it for each file in turn and so only starts the reads: the load events
  come after the loop, in the order in which the reads complete. \<open>loadEvents\<close> takes that
  order, with the clock readings of each event, from its caller.

  The callback saves, reloads, renders and notifies. It has no \<open>catch\<close>: a fault ends it with
  the state reached so far and no notification. The clock is read and the add request made
  when the load event fires, and the store serves requests in the order made; the model
  runs a callback to its end before the next load event.
\<close>

datatype pending_read = ImageReader js_file | TextReader js_file

definition quoted :: "string \<Rightarrow> string" where
  "quoted s = [CHR 0x22] @ s @ [CHR 0x22]"

definition afterDrop :: "string \<Rightarrow> js_error + (nat \<times> store) \<Rightarrow> app \<Rightarrow> app" where
  "afterDrop message saved a =
     (case saved of
        Inl e \<Rightarrow> a
      | Inr (k, st) \<Rightarrow>
          (case reloadAndRender (a\<lparr>db := st\<rparr>) of
             Inl e \<Rightarrow> loadClips (a\<lparr>db := st\<rparr>)
           | Inr a' \<Rightarrow> showSuccess message a'))"

definition onload :: "int \<times> int \<Rightarrow> pending_read \<Rightarrow> app \<Rightarrow> app" where
  "onload now r a =
     (case r of
        ImageReader f \<Rightarrow>
          afterDrop (''Image '' @ quoted (fname f) @ '' added successfully'')
            (saveClip now (db a)
               \<lparr>clip_type = ''image'', content = readAsDataURL f, tags = [''dropped-file''],
                memo = Some (''Dropped image: '' @ fname f), filename = Some (fname f),
                filesize = Some (fsize f), mimeType = Some (ftype f)\<rparr>) a
      | TextReader f \<Rightarrow>
          afterDrop (''Text file '' @ quoted (fname f) @ '' added successfully'')
            (saveClip now (db a)
               \<lparr>clip_type = ''text'', content = readAsText f,
                tags = [''dropped-file'', ''text-file''],
                memo = Some (''Dropped file: '' @ fname f), filename = Some (fname f),
                filesize = Some (fsize f), mimeType = Some (ftype f)\<rparr>) a)"

definition processDroppedFile :: "js_file \<Rightarrow> app \<Rightarrow> app \<times> pending_read option" where
  "processDroppedFile f a =
     (let mime = ftype f; fileName = fname f
      in if startsWith mime ''image/'' then (a, Some (ImageReader f))
         else if startsWith mime ''text/'' \<or> mime = ''application/json''
                 \<or> endsWith fileName ''.txt'' \<or> endsWith fileName ''.md'' then
           (a, Some (TextReader f))
         else
           (showError (''Unsupported file type: '' @ (if truthy_str mime then mime else ''unknown''))
              a,
            None))"

fun handleDrop :: "js_file list \<Rightarrow> app \<Rightarrow> app \<times> pending_read list" where
  "handleDrop [] a = (a, [])"
| "handleDrop (f # files) a =
     (case processDroppedFile f a of
        (a', r) \<Rightarrow>
          (case handleDrop files a' of
             (a'', rs) \<Rightarrow> (a'', (case r of None \<Rightarrow> [] | Some x \<Rightarrow> [x]) @ rs)))"

fun loadEvents :: "((int \<times> int) \<times> pending_read) list \<Rightarrow> app \<Rightarrow> app" where
  "loadEvents [] a = a"
| "loadEvents ((now, r) # events) a = loadEvents events (onload now r a)"

section \<open>What the specification says a search returns\<close>

text \<open>
  Case-insensitive substring: the lowered query occurs in the lowered text. A type filter
  is set when it is a non-empty string (the category selector uses the empty string for
  "all").
\<close>

definition ci_substring :: "string \<Rightarrow> string \<Rightarrow> bool" where
  "ci_substring q s = sublist (toLowerCase q) (toLowerCase s)"

definition spec_type_ok :: "string option \<Rightarrow> clip \<Rightarrow> bool" where
  "spec_type_ok ty c = (case ty of None \<Rightarrow> True | Some t \<Rightarrow> t = [] \<or> clip_type c = t)"

definition spec_query_ok :: "string \<Rightarrow> clip \<Rightarrow> bool" where
  "spec_query_ok q c =
     (ci_substring q (content c)
      \<or> (case memo c of None \<Rightarrow> False | Some m \<Rightarrow> ci_substring q m)
      \<or> list_ex (ci_substring q) (tags c))"

section \<open>Store invariant and runs of requests\<close>

text \<open>
  What holds of every store the operations can reach from a new one: the keys ascend and
  lie below the key generator.
\<close>

definition store_ok :: "store \<Rightarrow> bool" where
  "store_ok st =
     (sorted_wrt (<) (map clip_id (records st))
      \<and> list_all (\<lambda>c. clip_id c < keygen st) (records st))"

text \<open>
  A run of store requests, made one after the other; the result is the keys the successful
  saves returned, in order, and the final store.
\<close>

datatype store_op = Save "int \<times> int" clip_data | Delete nat

fun run_ops :: "store_op list \<Rightarrow> store \<Rightarrow> nat list \<times> store" where
  "run_ops [] st = ([], st)"
| "run_ops (Save now d # ops) st =
     (case saveClip now st d of
        Inl e \<Rightarrow> run_ops ops st
      | Inr (k, st') \<Rightarrow> (k # fst (run_ops ops st'), snd (run_ops ops st')))"
| "run_ops (Delete i # ops) st =
     (case deleteClip st i of
        Inl e \<Rightarrow> run_ops ops st
      | Inr st' \<Rightarrow> run_ops ops st')"

text \<open>
  Saving a list of clips one after the other, each with its clock readings; the first
  failing save ends the run. \<open>stamped\<close> reads back from a stored clip what the caller and
  the clock gave.
\<close>

fun saveAll :: "((int \<times> int) \<times> clip_data) list \<Rightarrow> store \<Rightarrow> js_error + store" where
  "saveAll [] st = Inr st"
| "saveAll ((now, d) # ds) st =
     (case saveClip now st d of
        Inl e \<Rightarrow> Inl e
      | Inr (k, st') \<Rightarrow> saveAll ds st')"

definition stamped :: "clip \<Rightarrow> (int \<times> int) \<times> clip_data" where
  "stamped c = ((createdAt c, updatedAt c), clip_data.truncate c)"

section \<open>Classification of dropped files\<close>

text \<open>
  File ingestion classifies a dropped file by MIME type and extension as image or text, or
  as not supported; \<open>dropKind\<close> is that classification with the tests \<open>processDroppedFile\<close>
  makes. \<open>summary\<close> is the part of a stored clip that the classification decides,
  \<open>dropSummary\<close> what it should be for a file, \<open>readerFile\<close> the file a reader reads,
  \<open>readerOf\<close> the reader that goes with a file's kind, and \<open>unsupportedToast\<close> the error
  shown for a file that is not supported.
\<close>

definition dropKind :: "js_file \<Rightarrow> string option" where
  "dropKind f =
     (if startsWith (ftype f) ''image/'' then Some ''image''
      else if startsWith (ftype f) ''text/'' \<or> ftype f = ''application/json''
              \<or> endsWith (fname f) ''.txt'' \<or> endsWith (fname f) ''.md'' then Some ''text''
      else None)"

definition dropTags :: "string \<Rightarrow> string list" where
  "dropTags kind = (if kind = ''image'' then [''dropped-file''] else [''dropped-file'', ''text-file''])"

definition summary :: "clip \<Rightarrow> string \<times> string list \<times> string option" where
  "summary c = (clip_type c, tags c, filename c)"

definition dropSummary :: "js_file \<Rightarrow> string \<times> string list \<times> string option" where
  "dropSummary f = (the (dropKind f), dropTags (the (dropKind f)), Some (fname f))"

definition unsupportedToast :: "js_file \<Rightarrow> toast_kind \<times> string" where
  "unsupportedToast f =
     (Failure, ''Unsupported file type: '' @ (if ftype f = [] then ''unknown'' else ftype f))"

definition isFailure :: "toast_kind \<times> string \<Rightarrow> bool" where
  "isFailure t = (fst t = Failure)"

definition readerFile :: "pending_read \<Rightarrow> js_file" where
  "readerFile r = (case r of ImageReader f \<Rightarrow> f | TextReader f \<Rightarrow> f)"

definition readerOf :: "js_file \<Rightarrow> pending_read option" where
  "readerOf f =
     (case dropKind f of
        None \<Rightarrow> None
      | Some kind \<Rightarrow> Some (if kind = ''image'' then ImageReader f else TextReader f))"

section \<open>Example data\<close>

definition ex_clip1 :: clip where
  "ex_clip1 =
     \<lparr>clip_type = ''text'', content = ''hello world'', tags = [''greeting''], memo = Some [],
      filename = None, filesize = None, mimeType = None,
      createdAt = 1000, updatedAt = 1000, clip_id = 1\<rparr>"

definition ex_clip2 :: clip where
  "ex_clip2 =
     \<lparr>clip_type = ''image'', content = ''data:image/png;base64,iVBORw=='', tags = [''Photo''],
      memo = None, filename = Some ''cat.png'', filesize = Some 4, mimeType = None,
      createdAt = 2000, updatedAt = 2001, clip_id = 2\<rparr>"

definition ex_clip3 :: clip where
  "ex_clip3 =
     \<lparr>clip_type = ''text'', content = ''Shopping list'', tags = [''home'', ''ToDo''],
      memo = Some ''Buy milk'', filename = None, filesize = None, mimeType = None,
      createdAt = 3000, updatedAt = 3000, clip_id = 3\<rparr>"

definition ex_store :: store where
  "ex_store = \<lparr>records = [ex_clip1, ex_clip2, ex_clip3], keygen = 4\<rparr>"

definition ex_app :: app where
  "ex_app = (constructor ex_store)\<lparr>clips := [ex_clip2, ex_clip1, ex_clip3]\<rparr>"

definition ex_blank_form :: text_form where
  "ex_blank_form =
     \<lparr>text_content = [CHR '' '', CHR 0x09, CHR 0x0A], text_tags = ''a, b'',
      text_memo = ''note''\<rparr>"

definition ex_no_file_form :: image_form where
  "ex_no_file_form = \<lparr>image_input = None, image_tags = ''a'', image_memo = []\<rparr>"

definition ex_note :: clip_data where
  "ex_note =
     \<lparr>clip_type = ''text'', content = ''note'', tags = [''a'', ''b''], memo = Some [],
      filename = None, filesize = None, mimeType = None\<rparr>"

definition ex_saves :: "((int \<times> int) \<times> clip_data) list" where
  "ex_saves = [((10, 10), ex_note), ((20, 21), ex_note\<lparr>content := ''second''\<rparr>)]"

definition ex_png :: js_file where
  "ex_png = \<lparr>fname = ''cat.png'', ftype = ''image/png'', fbytes = ''PNG''\<rparr>"

definition ex_exe :: js_file where
  "ex_exe = \<lparr>fname = ''setup.exe'', ftype = ''application/x-msdownload'', fbytes = ''MZ''\<rparr>"

definition ex_md :: js_file where
  "ex_md = \<lparr>fname = ''notes.md'', ftype = [], fbytes = ''# Notes''\<rparr>"

definition ex_drop :: "js_file list" where
  "ex_drop = [ex_png, ex_exe, ex_md]"

definition ex_loads :: "((int \<times> int) \<times> pending_read) list" where
  "ex_loads = [((20, 20), TextReader ex_md), ((30, 31), ImageReader ex_png)]"

definition ex_new_app :: app where
  "ex_new_app = constructor (db_init None)"

definition ex_empty_txt :: js_file where
  "ex_empty_txt = \<lparr>fname = ''empty.txt'', ftype = ''text/plain'', fbytes = []\<rparr>"

section \<open>Search\<close>

lemma js_includes_sublist: "js_includes s q = sublist q s"
  by (induction s) (auto simp: sublist_Cons_right)

lemma js_some_Inr:
  "(\<And>x. x \<in> set xs \<Longrightarrow> p x = Inr (P x)) \<Longrightarrow> js_some p xs = Inr (list_ex P xs)"
  by (induction xs) (auto simp: js_or_def)

lemma js_filter_Inr:
  "(\<And>x. x \<in> set xs \<Longrightarrow> p x = Inr (P x)) \<Longrightarrow> js_filter p xs = Inr (filter P xs)"
  by (induction xs) auto

lemma ci_substring_empty: "ci_substring [] s"
  by (simp add: ci_substring_def toLowerCase_def)

lemma ci_substring_in_empty: "ci_substring q [] = (q = [])"
  by (simp add: ci_substring_def toLowerCase_def)

lemma textMatches_Inr: "textMatches (Some q) c = Inr (spec_query_ok q c)"
proof -
  have tg: "js_some (\<lambda>tag. lowerIncludes (Some tag) (Some q)) (tags c)
              = Inr (list_ex (ci_substring q) (tags c))"
    by (rule js_some_Inr) (simp add: lowerIncludes_def ci_substring_def js_includes_sublist)
  have ct: "lowerIncludes (Some (content c)) (Some q) = Inr (ci_substring q (content c))"
    by (simp add: lowerIncludes_def ci_substring_def js_includes_sublist)
  have mm: "(if truthy (memo c) then lowerIncludes (memo c) (Some q) else Inr False)
              = Inr (case memo c of None \<Rightarrow> False | Some m \<Rightarrow> m \<noteq> [] \<and> ci_substring q m)"
    by (cases "memo c")
       (simp_all add: truthy_def truthy_str_def lowerIncludes_def ci_substring_def
          js_includes_sublist)
  have shape: "textMatches (Some q) c
      = js_or (Inr (ci_substring q (content c)))
          (js_or (Inr (case memo c of None \<Rightarrow> False | Some m \<Rightarrow> m \<noteq> [] \<and> ci_substring q m))
             (Inr (list_ex (ci_substring q) (tags c))))"
    unfolding textMatches_def ct mm tg ..
  have guard: "q \<noteq> [] \<Longrightarrow>
      (case memo c of None \<Rightarrow> False | Some m \<Rightarrow> m \<noteq> [] \<and> ci_substring q m)
        = (case memo c of None \<Rightarrow> False | Some m \<Rightarrow> ci_substring q m)"
    by (cases "memo c") (auto simp: ci_substring_in_empty)
  show ?thesis
  proof (cases "q = []")
    case True
    then have "ci_substring q (content c)"
      by (simp add: ci_substring_empty)
    then show ?thesis
      unfolding shape by (simp add: js_or_def spec_query_ok_def)
  next
    case False
    show ?thesis
      unfolding shape guard [OF False] by (simp add: js_or_def spec_query_ok_def)
  qed
qed

lemma matchesQuery_Some: "matchesQuery (Some q) c = Inr (spec_query_ok q c)"
proof (cases "q = []")
  case True
  then show ?thesis
    by (simp add: matchesQuery_def js_or_def truthy_def truthy_str_def spec_query_ok_def
        ci_substring_empty)
next
  case False
  then show ?thesis
    by (simp add: matchesQuery_def js_or_def truthy_def truthy_str_def textMatches_Inr)
qed

lemma matchesType_spec: "matchesType ty c = spec_type_ok ty c"
  by (cases ty) (auto simp: matchesType_def spec_type_ok_def truthy_def truthy_str_def)

lemma searchClips_Some:
  "searchClips st (Some q) ty
     = Inr (filter (\<lambda>c. spec_type_ok ty c \<and> spec_query_ok q c) (getAllClips st))"
  unfolding searchClips_def
  by (rule js_filter_Inr) (simp add: matchesQuery_Some matchesType_spec)

text \<open>
  C1. A search with a query string returns exactly the stored clips that pass the type
  filter, when one is set, and contain the query, case-insensitively, in the content, in
  the memo when there is one, or in at least one tag. A clip that passes the type filter
  and has the query in a tag is returned whatever its content and memo are.
\<close>

theorem searchClips_exact:
  "searchClips st (Some q) ty
     = Inr (filter (\<lambda>c. spec_type_ok ty c \<and> spec_query_ok q c) (getAllClips st))
   \<and> (\<forall>c \<in> set (getAllClips st).
         spec_type_ok ty c \<and> list_ex (ci_substring q) (tags c)
           \<longrightarrow> (\<exists>found. searchClips st (Some q) ty = Inr found \<and> c \<in> set found))"
  by (simp add: searchClips_Some spec_query_ok_def)

theorem searchClips_exact_witness:
  "searchClips ex_store (Some ''ELL'') None = Inr [ex_clip1]
   \<and> \<not> ci_substring ''todo'' (content ex_clip3)
   \<and> \<not> ci_substring ''todo'' (the (memo ex_clip3))
   \<and> (\<exists>found. searchClips ex_store (Some ''todo'') (Some ''text'') = Inr found
                \<and> ex_clip3 \<in> set found)"
  using searchClips_exact [of ex_store "''ELL''" None]
    searchClips_exact [of ex_store "''todo''" "Some ''text''"]
  by (simp add: ex_store_def ex_clip1_def ex_clip2_def ex_clip3_def getAllClips_def
      spec_type_ok_def spec_query_ok_def ci_substring_def toLowerCase_def lower_char_def
      flip: js_includes_sublist)

section \<open>Sorting and rendering\<close>

lemma js_insert_insort_key:
  fixes key :: "'a \<Rightarrow> 'k::linorder"
  assumes "\<And>x y. (cmp x y \<le> 0) = (key x \<le> key y)"
  shows "js_insert cmp x ys = insort_key key x ys"
  by (induction ys) (simp_all add: assms)

lemma js_sort_sort_key:
  fixes key :: "'a \<Rightarrow> 'k::linorder"
  assumes "\<And>x y. (cmp x y \<le> 0) = (key x \<le> key y)"
  shows "js_sort cmp xs = sort_key key xs"
  unfolding js_sort_def sort_key_def
  by (induction xs) (simp_all add: js_insert_insort_key [of cmp key, OF assms])

text \<open>
  Any list that is a permutation of the input, ordered by the key and keeps clips of equal
  key in their input order is the result of \<open>js_sort\<close>.
\<close>

lemma js_sort_unique:
  fixes key :: "'a \<Rightarrow> 'k::linorder"
  assumes "\<And>x y. (cmp x y \<le> 0) = (key x \<le> key y)"
    and "mset ys = mset xs"
    and "sorted (map key ys)"
    and "\<And>k. k \<in> set ys \<Longrightarrow>
           filter (\<lambda>x. key k = key x) ys = filter (\<lambda>x. key k = key x) xs"
  shows "js_sort cmp xs = ys"
  unfolding js_sort_sort_key [of cmp key, OF assms(1)]
  using assms(2,4,3) by (rule properties_for_sort_key)

lemma sort_newest:
  "js_sort (compareClips ''newest'') xs = sort_key (\<lambda>c. - createdAt c) xs"
  by (rule js_sort_sort_key) (simp add: compareClips_def)

lemma sort_oldest:
  "sortOrder \<noteq> ''newest'' \<Longrightarrow> js_sort (compareClips sortOrder) xs = sort_key createdAt xs"
  by (rule js_sort_sort_key) (simp add: compareClips_def)

lemma mset_js_sort_clips: "mset (js_sort (compareClips so) xs) = mset xs"
  by (cases "so = ''newest''") (simp_all add: sort_newest sort_oldest)

lemma sorted_newest:
  "sorted_wrt (\<lambda>x y. createdAt y \<le> createdAt x) (js_sort (compareClips ''newest'') xs)"
proof -
  have "sorted (map (\<lambda>c. - createdAt c) (sort_key (\<lambda>c. - createdAt c) xs))"
    by (rule sorted_sort_key)
  then show ?thesis
    by (simp add: sort_newest sorted_map)
qed

lemma sorted_oldest:
  "sortOrder \<noteq> ''newest'' \<Longrightarrow>
     sorted_wrt (\<lambda>x y. createdAt x \<le> createdAt y) (js_sort (compareClips sortOrder) xs)"
  using sorted_sort_key [of createdAt xs] by (simp add: sort_oldest sorted_map)

lemma renderClips_Inr:
  "renderClips a =
     Inr (a\<lparr>clips :=
             (if currentSearch a \<noteq> [] \<or> currentFilter a \<noteq> [] then clips a
              else js_sort (compareClips (currentSort a)) (clips a)),
           rendered :=
             js_sort (compareClips (currentSort a))
               (filter (\<lambda>c. currentFilter a = [] \<or> clip_type c = currentFilter a)
                  (filter (\<lambda>c. currentSearch a = [] \<or> spec_query_ok (currentSearch a) c) (clips a))),
           emptyStateHidden :=
             (js_sort (compareClips (currentSort a))
               (filter (\<lambda>c. currentFilter a = [] \<or> clip_type c = currentFilter a)
                  (filter (\<lambda>c. currentSearch a = [] \<or> spec_query_ok (currentSearch a) c) (clips a))) \<noteq> [])\<rparr>)"
proof -
  have f: "js_filter (textMatches (Some (currentSearch a))) (clips a)
             = Inr (filter (spec_query_ok (currentSearch a)) (clips a))"
    by (rule js_filter_Inr) (simp add: textMatches_Inr)
  show ?thesis
    by (simp add: renderClips_def f truthy_str_def Let_def)
qed

lemma three_newest:
  assumes "createdAt c1 < createdAt c2" "createdAt c2 < createdAt c3"
    and "mset xs = {#c1, c2, c3#}"
  shows "js_sort (compareClips ''newest'') xs = [c3, c2, c1]"
proof -
  have m: "mset xs = mset [c3, c2, c1]"
    using assms(3) by (simp add: add_mset_commute)
  then have "set xs = {c1, c2, c3}"
    using mset_eq_setD by fastforce
  then have "inj_on (\<lambda>c. - createdAt c) (set xs)"
    using assms(1,2) by (auto simp: inj_on_def)
  moreover have "sorted (map (\<lambda>c. - createdAt c) [c3, c2, c1])"
    using assms(1,2) by simp
  ultimately show ?thesis
    unfolding sort_newest using m by (intro sort_key_inj_key_eq)
qed

lemma three_oldest:
  assumes "createdAt c1 < createdAt c2" "createdAt c2 < createdAt c3"
    and "mset xs = {#c1, c2, c3#}" and "so \<noteq> ''newest''"
  shows "js_sort (compareClips so) xs = [c1, c2, c3]"
proof -
  have m: "mset xs = mset [c1, c2, c3]"
    using assms(3) by simp
  then have "set xs = {c1, c2, c3}"
    using mset_eq_setD by fastforce
  then have "inj_on createdAt (set xs)"
    using assms(1,2) by (auto simp: inj_on_def)
  moreover have "sorted (map createdAt [c1, c2, c3])"
    using assms(1,2) by simp
  ultimately show ?thesis
    unfolding sort_oldest [OF assms(4)] using m by (intro sort_key_inj_key_eq)
qed

text \<open>
  C2. Rendering always succeeds and shows the clips that pass the two filters, ordered by
  \<open>createdAt\<close>: newest first when the sort order is \<open>newest\<close>, oldest first for every
  other value. Three loaded clips created at \<open>t1 < t2 < t3\<close> are shown as \<open>[t3, t2, t1]\<close>
  and as \<open>[t1, t2, t3]\<close>.
\<close>

theorem renderClips_sorts_by_createdAt:
  "\<exists>a'. renderClips a = Inr a'
     \<and> mset (rendered a')
         = mset (filter (\<lambda>c. currentFilter a = [] \<or> clip_type c = currentFilter a)
                  (filter (\<lambda>c. currentSearch a = [] \<or> spec_query_ok (currentSearch a) c)
                     (clips a)))
     \<and> (currentSort a = ''newest''
          \<longrightarrow> sorted_wrt (\<lambda>x y. createdAt y \<le> createdAt x) (rendered a'))
     \<and> (currentSort a \<noteq> ''newest''
          \<longrightarrow> sorted_wrt (\<lambda>x y. createdAt x \<le> createdAt y) (rendered a'))
     \<and> (\<forall>c1 c2 c3.
           createdAt c1 < createdAt c2 \<and> createdAt c2 < createdAt c3
           \<and> mset (clips a) = {#c1, c2, c3#}
           \<and> currentSearch a = [] \<and> currentFilter a = []
           \<longrightarrow> rendered a' = (if currentSort a = ''newest'' then [c3, c2, c1] else [c1, c2, c3]))"
  unfolding renderClips_Inr
  by (auto simp: mset_js_sort_clips sorted_newest sorted_oldest three_newest three_oldest)

theorem renderClips_sorts_by_createdAt_witness:
  "(\<exists>a'. renderClips ex_app = Inr a' \<and> rendered a' = [ex_clip3, ex_clip2, ex_clip1])
   \<and> (\<exists>a'. renderClips (ex_app\<lparr>currentSort := ''oldest''\<rparr>) = Inr a'
            \<and> rendered a' = [ex_clip1, ex_clip2, ex_clip3])"
proof -
  have ts: "createdAt ex_clip1 < createdAt ex_clip2 \<and> createdAt ex_clip2 < createdAt ex_clip3"
    by (simp add: ex_clip1_def ex_clip2_def ex_clip3_def)
  have ms: "mset (clips ex_app) = {#ex_clip1, ex_clip2, ex_clip3#}"
    by (simp add: ex_app_def)
  have st: "currentSearch ex_app = [] \<and> currentFilter ex_app = []
            \<and> currentSort ex_app = ''newest''"
    by (simp add: ex_app_def constructor_def)
  show ?thesis
    using renderClips_sorts_by_createdAt [of ex_app]
      renderClips_sorts_by_createdAt [of "ex_app\<lparr>currentSort := ''oldest''\<rparr>"] ts ms st
    by (auto simp del: mset.simps)
qed

section \<open>Empty queries and missing memos\<close>

lemma matchesQuery_falsy: "\<not> truthy query \<Longrightarrow> matchesQuery query c = Inr True"
  by (simp add: matchesQuery_def js_or_def)

lemma searchClips_falsy:
  "\<not> truthy query \<Longrightarrow> searchClips st query ty = Inr (filter (spec_type_ok ty) (getAllClips st))"
  unfolding searchClips_def
  by (rule js_filter_Inr) (simp add: matchesQuery_falsy matchesType_spec)

text \<open>
  C9. With an empty or null query the query test is skipped: every clip matches, a search
  without a type returns all stored clips, and a search with a type returns exactly the
  stored clips of that type. With an empty search text \<open>renderClips\<close> shows every loaded clip
  that passes the category filter.
\<close>

theorem searchClips_empty_query:
  "\<not> truthy query \<longrightarrow>
     searchClips st query None = Inr (getAllClips st)
     \<and> (t \<noteq> [] \<longrightarrow>
          searchClips st query (Some t) = Inr (filter (\<lambda>c. clip_type c = t) (getAllClips st)))
     \<and> (\<forall>c. matchesQuery query c = Inr True)
     \<and> (currentSearch a = [] \<longrightarrow>
          (\<exists>a'. renderClips a = Inr a'
             \<and> mset (rendered a')
                 = mset (filter (\<lambda>c. currentFilter a = [] \<or> clip_type c = currentFilter a)
                          (clips a))))"
  by (auto simp: searchClips_falsy matchesQuery_falsy spec_type_ok_def renderClips_Inr
      mset_js_sort_clips intro!: filter_cong)

text \<open>Were a null query used as a substring test, the callback would fault.\<close>

lemma null_query_as_substring_test: "lowerIncludes (Some s) None = Inl TypeError"
  by (simp add: lowerIncludes_def)

theorem searchClips_empty_query_witness:
  "\<not> truthy None \<and> \<not> truthy (Some [])
   \<and> searchClips ex_store None None = Inr [ex_clip1, ex_clip2, ex_clip3]
   \<and> searchClips ex_store (Some []) None = Inr [ex_clip1, ex_clip2, ex_clip3]
   \<and> searchClips ex_store (Some []) (Some ''image'') = Inr [ex_clip2]
   \<and> searchClips ex_store None (Some ''text'') = Inr [ex_clip1, ex_clip3]"
  using searchClips_empty_query [of None ex_store "''text''"]
    searchClips_empty_query [of "Some []" ex_store "''image''"]
  by (simp add: truthy_def truthy_str_def getAllClips_def ex_store_def ex_clip1_def
      ex_clip2_def ex_clip3_def)

text \<open>
  C10. The search callback of \<open>searchClips\<close> and the one of \<open>renderClips\<close> never fault,
  whatever the memo is. On a clip whose memo is missing or empty, a non-empty query
  matches exactly when the content or one of the tags contains it, case-insensitively.
\<close>

theorem matchesQuery_memo_guarded:
  "(\<exists>b. matchesQuery query c = Inr b)
   \<and> (\<exists>b. textMatches (Some q) c = Inr b)
   \<and> ((memo c = None \<or> memo c = Some []) \<and> q \<noteq> [] \<longrightarrow>
        matchesQuery (Some q) c
          = Inr (ci_substring q (content c) \<or> list_ex (ci_substring q) (tags c))
        \<and> textMatches (Some q) c
          = Inr (ci_substring q (content c) \<or> list_ex (ci_substring q) (tags c)))"
proof -
  have "\<exists>b. matchesQuery query c = Inr b"
  proof (cases "truthy query")
    case True
    then obtain s where "query = Some s"
      by (cases query) (auto simp: truthy_def)
    then show ?thesis
      by (simp add: matchesQuery_Some)
  next
    case False
    then show ?thesis
      by (auto simp: matchesQuery_falsy)
  qed
  moreover have "(memo c = None \<or> memo c = Some []) \<and> q \<noteq> [] \<longrightarrow>
      spec_query_ok q c = (ci_substring q (content c) \<or> list_ex (ci_substring q) (tags c))"
    by (auto simp: spec_query_ok_def ci_substring_in_empty)
  ultimately show ?thesis
    by (simp add: matchesQuery_Some textMatches_Inr)
qed

theorem matchesQuery_memo_guarded_witness:
  "memo ex_clip2 = None \<and> memo ex_clip1 = Some []
   \<and> matchesQuery (Some ''PHO'') ex_clip2 = Inr True
   \<and> matchesQuery (Some ''milk'') ex_clip2 = Inr False
   \<and> textMatches (Some ''World'') ex_clip1 = Inr True
   \<and> textMatches (Some ''milk'') ex_clip1 = Inr False"
  using matchesQuery_memo_guarded [of _ ex_clip2 "''PHO''"]
    matchesQuery_memo_guarded [of _ ex_clip2 "''milk''"]
    matchesQuery_memo_guarded [of _ ex_clip1 "''World''"]
    matchesQuery_memo_guarded [of _ ex_clip1 "''milk''"]
  by (simp add: ex_clip1_def ex_clip2_def ci_substring_def toLowerCase_def lower_char_def
      flip: js_includes_sublist)

section \<open>Validation and deletion\<close>

lemma trim_all_ws: "(\<forall>ch \<in> set s. is_ws ch) \<Longrightarrow> trim s = []"
proof -
  assume "\<forall>ch \<in> set s. is_ws ch"
  then have dropped: "dropWhile is_ws s = []"
    by (induction s) auto
  show ?thesis
    unfolding trim_def dropped by simp
qed

lemma showError_keeps: "db (showError m a) = db a \<and> clips (showError m a) = clips a
   \<and> rendered (showError m a) = rendered a"
  by (simp add: showError_def showToast_def)

text \<open>
  C3. When the text input trims to the empty string, which is the case when it is empty or
  all white space, \<open>saveTextClip\<close> only shows the validation error: the store and the
  loaded clips are as before. \<open>saveImageClip\<close> does the same when no file is selected.
\<close>

theorem empty_input_rejected:
  "(trim (text_content form) = [] \<longrightarrow>
      saveTextClip now form a = showError ''Please enter some text'' a
      \<and> db (saveTextClip now form a) = db a
      \<and> clips (saveTextClip now form a) = clips a)
   \<and> ((\<forall>ch \<in> set (text_content form). is_ws ch) \<longrightarrow> trim (text_content form) = [])
   \<and> (image_input iform = None \<longrightarrow>
      saveImageClip now iform a = showError ''Please select an image file'' a
      \<and> db (saveImageClip now iform a) = db a
      \<and> clips (saveImageClip now iform a) = clips a)"
  by (simp add: saveTextClip_def saveImageClip_def truthy_str_def trim_all_ws showError_keeps)

theorem empty_input_rejected_witness:
  "list_all is_ws (text_content ex_blank_form)
   \<and> trim (text_content ex_blank_form) = []
   \<and> image_input ex_no_file_form = None
   \<and> records (db (saveTextClip (5000, 5000) ex_blank_form ex_app)) = [ex_clip1, ex_clip2, ex_clip3]
   \<and> toasts (saveTextClip (5000, 5000) ex_blank_form ex_app) = [(Failure, ''Please enter some text'')]
   \<and> records (db (saveImageClip (5000, 5000) ex_no_file_form ex_app)) = [ex_clip1, ex_clip2, ex_clip3]
   \<and> toasts (saveImageClip (5000, 5000) ex_no_file_form ex_app) = [(Failure, ''Please select an image file'')]"
  using empty_input_rejected [of ex_blank_form "(5000, 5000)" ex_app ex_no_file_form]
  by (simp add: ex_blank_form_def ex_no_file_form_def is_ws_def ex_app_def constructor_def
      ex_store_def showError_def showToast_def)

lemma deleteClip_Inr:
  "deleteClip st i = Inr (st\<lparr>records := filter (\<lambda>c. clip_id c \<noteq> i) (records st)\<rparr>)"
  by (simp add: deleteClip_def)

lemma reloadAndRender_Inr:
  "\<exists>a'. reloadAndRender a = Inr a' \<and> db a' = db a \<and> toasts a' = toasts a
     \<and> set (clips a') = set (getAllClips (db a)) \<and> mset (clips a') = mset (getAllClips (db a))"
  by (simp add: reloadAndRender_def renderClips_Inr loadClips_def mset_js_sort_clips
      flip: set_mset_mset)

text \<open>
  C5. \<open>deleteClip\<close> always succeeds; afterwards no stored record has the id and the other
  records are as before, and when no record had the id the store is unchanged. The
  application's delete, once confirmed, reloads: the loaded clips exclude the id, and the
  notification is the success one, also for an id that was not there.
\<close>

theorem delete_removes:
  "(\<exists>st'. deleteClip st i = Inr st'
      \<and> i \<notin> clip_id ` set (getAllClips st')
      \<and> getAllClips st' = filter (\<lambda>c. clip_id c \<noteq> i) (getAllClips st)
      \<and> keygen st' = keygen st
      \<and> (i \<notin> clip_id ` set (getAllClips st) \<longrightarrow> st' = st))
   \<and> i \<notin> clip_id ` set (clips (app_deleteClip True i a))
   \<and> i \<notin> clip_id ` set (getAllClips (db (app_deleteClip True i a)))
   \<and> toasts (app_deleteClip True i a) = toasts a @ [(Success, ''Clip deleted successfully'')]
   \<and> (i \<notin> clip_id ` set (getAllClips (db a)) \<longrightarrow> db (app_deleteClip True i a) = db a)"
proof -
  have absent: "i \<notin> clip_id ` set (records st) \<Longrightarrow>
      filter (\<lambda>c. clip_id c \<noteq> i) (records st) = records st" for st :: store
    by (auto simp: filter_id_conv)
  have store: "\<exists>st'. deleteClip st i = Inr st'
      \<and> i \<notin> clip_id ` set (getAllClips st')
      \<and> getAllClips st' = filter (\<lambda>c. clip_id c \<noteq> i) (getAllClips st)
      \<and> keygen st' = keygen st
      \<and> (i \<notin> clip_id ` set (getAllClips st) \<longrightarrow> st' = st)"
    using absent [of st] by (auto simp: deleteClip_Inr getAllClips_def)
  let ?st = "(db a)\<lparr>records := filter (\<lambda>c. clip_id c \<noteq> i) (records (db a))\<rparr>"
  obtain a' where a': "reloadAndRender (a\<lparr>db := ?st\<rparr>) = Inr a'" "db a' = ?st"
    "toasts a' = toasts a" "set (clips a') = set (getAllClips ?st)"
    using reloadAndRender_Inr [of "a\<lparr>db := ?st\<rparr>"] by auto
  have app: "app_deleteClip True i a = showSuccess ''Clip deleted successfully'' a'"
    by (simp add: app_deleteClip_def deleteClip_Inr a'(1))
  have "i \<notin> clip_id ` set (clips (app_deleteClip True i a))"
    unfolding app by (auto simp: showSuccess_def showToast_def a'(4) getAllClips_def)
  moreover have "i \<notin> clip_id ` set (getAllClips (db (app_deleteClip True i a)))"
    unfolding app by (auto simp: showSuccess_def showToast_def a'(2) getAllClips_def)
  moreover have "toasts (app_deleteClip True i a) = toasts a @ [(Success, ''Clip deleted successfully'')]"
    unfolding app by (simp add: showSuccess_def showToast_def a'(3))
  moreover have "i \<notin> clip_id ` set (getAllClips (db a)) \<longrightarrow> db (app_deleteClip True i a) = db a"
    unfolding app using absent [of "db a"]
    by (simp add: showSuccess_def showToast_def a'(2) getAllClips_def)
  ultimately show ?thesis
    using store by blast
qed

theorem delete_removes_witness:
  "deleteClip ex_store 2 = Inr (ex_store\<lparr>records := [ex_clip1, ex_clip3]\<rparr>)
   \<and> 7 \<notin> clip_id ` set (getAllClips ex_store)
   \<and> deleteClip ex_store 7 = Inr ex_store
   \<and> db (app_deleteClip True 7 ex_app) = ex_store"
  using delete_removes [of ex_store 2 ex_app] delete_removes [of ex_store 7 ex_app]
    delete_removes [of ex_store 7 ex_app]
  by (auto simp: getAllClips_def ex_store_def ex_clip1_def ex_clip2_def ex_clip3_def
      ex_app_def constructor_def deleteClip_def)

section \<open>Keys and timestamps\<close>

lemma saveClip_Inr:
  "keygen st \<le> max_key \<Longrightarrow>
     saveClip now st d =
       Inr (keygen st,
            \<lparr>records = records st @
               [\<lparr>clip_type = clip_type d, content = content d, tags = tags d, memo = memo d,
                 filename = filename d, filesize = filesize d, mimeType = mimeType d,
                 createdAt = fst now, updatedAt = snd now, clip_id = keygen st\<rparr>],
             keygen = keygen st + 1\<rparr>)"
  by (simp add: saveClip_def Let_def)

lemma saveClip_Inl: "max_key < keygen st \<Longrightarrow> saveClip now st d = Inl ConstraintError"
  by (simp add: saveClip_def)

lemma saveClip_cases:
  "saveClip now st d = Inl ConstraintError \<or>
   (\<exists>st'. saveClip now st d = Inr (keygen st, st') \<and> keygen st' = keygen st + 1
      \<and> (\<exists>c. records st' = records st @ [c] \<and> clip_id c = keygen st))"
  by (cases "keygen st \<le> max_key") (simp_all add: saveClip_Inr saveClip_Inl)

lemma store_ok_save:
  assumes "store_ok st" "saveClip now st d = Inr (k, st')"
  shows "store_ok st' \<and> k = keygen st \<and> keygen st < keygen st'"
proof -
  from assms(2) saveClip_cases [of now st d]
  obtain c where c: "k = keygen st" "keygen st' = keygen st + 1"
    "records st' = records st @ [c]" "clip_id c = keygen st"
    by auto
  have "sorted_wrt (<) (map clip_id (records st) @ [keygen st])"
    using assms(1) by (auto simp: store_ok_def sorted_wrt_append list_all_iff)
  moreover have "list_all (\<lambda>x. clip_id x < keygen st + 1) (records st)"
    using assms(1) by (auto simp: store_ok_def list_all_iff)
  ultimately show ?thesis
    by (simp add: store_ok_def c)
qed

lemma store_ok_delete:
  assumes "store_ok st" "deleteClip st i = Inr st'"
  shows "store_ok st' \<and> keygen st' = keygen st"
proof -
  have st': "st' = st\<lparr>records := filter (\<lambda>c. clip_id c \<noteq> i) (records st)\<rparr>"
    using assms(2) by (simp add: deleteClip_def)
  have "sorted_wrt (<) (map clip_id (filter (\<lambda>c. clip_id c \<noteq> i) (records st)))"
    using assms(1) by (simp add: store_ok_def sorted_wrt_map sorted_wrt_filter)
  then show ?thesis
    using assms(1) by (auto simp: st' store_ok_def list_all_iff)
qed

lemma store_ok_distinct: "store_ok st \<Longrightarrow> distinct (map clip_id (records st))"
  by (simp add: store_ok_def strict_sorted_iff)

lemma store_ok_fresh: "store_ok (db_init None)"
  by (simp add: store_ok_def db_init_def)

lemma run_ops_increasing:
  "store_ok st \<Longrightarrow>
     sorted_wrt (<) (fst (run_ops ops st))
     \<and> list_all (\<lambda>k. keygen st \<le> k) (fst (run_ops ops st))
     \<and> store_ok (snd (run_ops ops st))
     \<and> keygen st \<le> keygen (snd (run_ops ops st))"
proof (induction ops st rule: run_ops.induct)
  case (1 st)
  then show ?case by simp
next
  case (2 now d ops st)
  show ?case
  proof (cases "saveClip now st d")
    case (Inl e)
    with 2 show ?thesis by simp
  next
    case (Inr r)
    obtain k st' where r: "r = (k, st')" by (cases r)
    have ok: "store_ok st'" "k = keygen st" "keygen st < keygen st'"
      using store_ok_save [OF "2.prems", of now d k st'] Inr r by auto
    have ih: "sorted_wrt (<) (fst (run_ops ops st'))"
      "list_all (\<lambda>k. keygen st' \<le> k) (fst (run_ops ops st'))"
      "store_ok (snd (run_ops ops st'))" "keygen st' \<le> keygen (snd (run_ops ops st'))"
      using "2.IH"(2) [OF Inr r [symmetric] ok(1)] by auto
    show ?thesis
      using ih ok by (auto simp: Inr r list_all_iff)
  qed
next
  case (3 i ops st)
  obtain st' where d: "deleteClip st i = Inr st'"
    by (simp add: deleteClip_def)
  have ok: "store_ok st'" "keygen st' = keygen st"
    using store_ok_delete [OF "3.prems" d] by auto
  show ?case
    using "3.IH"(2) [OF d ok(1)] ok(2) by (simp add: d)
qed

text \<open>
  C8. While the key generator is not used up, \<open>saveClip\<close> returns the key the store
  assigned and appends the record, which carries the caller's fields, that key and the two
  clock readings as \<open>createdAt\<close> and \<open>updatedAt\<close>. In every run of saves and deletes from a
  well-formed store the returned keys strictly increase, so they are pairwise different,
  differ from the keys already stored, and the stored keys stay pairwise different.
\<close>

theorem saveClip_assigns_id_and_timestamps:
  "(keygen st \<le> max_key \<longrightarrow>
      (\<exists>st' c. saveClip now st d = Inr (keygen st, st')
         \<and> getAllClips st' = getAllClips st @ [c]
         \<and> clip_id c = keygen st \<and> createdAt c = fst now \<and> updatedAt c = snd now
         \<and> clip_data.truncate c = d))
   \<and> (store_ok st \<longrightarrow>
        sorted_wrt (<) (fst (run_ops ops st))
        \<and> distinct (fst (run_ops ops st))
        \<and> list_all (\<lambda>k. k \<notin> clip_id ` set (getAllClips st)) (fst (run_ops ops st))
        \<and> distinct (map clip_id (getAllClips (snd (run_ops ops st)))))"
proof -
  have one: "keygen st \<le> max_key \<longrightarrow>
      (\<exists>st' c. saveClip now st d = Inr (keygen st, st')
         \<and> getAllClips st' = getAllClips st @ [c]
         \<and> clip_id c = keygen st \<and> createdAt c = fst now \<and> updatedAt c = snd now
         \<and> clip_data.truncate c = d)"
    by (simp add: saveClip_Inr getAllClips_def clip_data.truncate_def)
  have many: "sorted_wrt (<) (fst (run_ops ops st))
        \<and> distinct (fst (run_ops ops st))
        \<and> list_all (\<lambda>k. k \<notin> clip_id ` set (getAllClips st)) (fst (run_ops ops st))
        \<and> distinct (map clip_id (getAllClips (snd (run_ops ops st))))" if ok: "store_ok st"
  proof -
    note inc = run_ops_increasing [OF ok, of ops]
    have "distinct (fst (run_ops ops st))"
      using inc by (simp add: strict_sorted_iff)
    moreover have "list_all (\<lambda>k. k \<notin> clip_id ` set (getAllClips st)) (fst (run_ops ops st))"
      using inc ok by (fastforce simp: list_all_iff store_ok_def getAllClips_def)
    ultimately show ?thesis
      using inc store_ok_distinct [of "snd (run_ops ops st)"] by (simp add: getAllClips_def)
  qed
  show ?thesis
    using one many by blast
qed

theorem saveClip_assigns_id_and_timestamps_witness:
  "keygen ex_store \<le> max_key \<and> store_ok ex_store
   \<and> (\<exists>st'. saveClip (4000, 4001) ex_store ex_note = Inr (4, st')
         \<and> map clip_id (getAllClips st') = [1, 2, 3, 4]
         \<and> map createdAt (getAllClips st') = [1000, 2000, 3000, 4000]
         \<and> map updatedAt (getAllClips st') = [1000, 2001, 3000, 4001])
   \<and> fst (run_ops [Save (4000, 4001) ex_note, Delete 4, Save (5000, 5000) ex_note] ex_store)
       = [4, 5]"
proof -
  have k: "keygen ex_store \<le> max_key"
    by (simp add: ex_store_def max_key_def)
  have ok: "store_ok ex_store"
    by (simp add: store_ok_def ex_store_def ex_clip1_def ex_clip2_def ex_clip3_def)
  have run: "fst (run_ops [Save (4000, 4001) ex_note, Delete 4, Save (5000, 5000) ex_note] ex_store)
       = [4, 5]"
    by (simp add: saveClip_def deleteClip_def ex_store_def max_key_def Let_def)
  have k4: "keygen ex_store = 4"
    by (simp add: ex_store_def)
  from saveClip_assigns_id_and_timestamps [of ex_store "(4000, 4001)" ex_note "[]"] k
  obtain st' c where s: "saveClip (4000, 4001) ex_store ex_note = Inr (4, st')"
    "getAllClips st' = getAllClips ex_store @ [c]" "clip_id c = 4" "createdAt c = 4000"
    "updatedAt c = 4001"
    by (auto simp: k4)
  have "map clip_id (getAllClips st') = [1, 2, 3, 4]
         \<and> map createdAt (getAllClips st') = [1000, 2000, 3000, 4000]
         \<and> map updatedAt (getAllClips st') = [1000, 2001, 3000, 4001]"
    using s(2-5)
    by (simp add: getAllClips_def ex_store_def ex_clip1_def ex_clip2_def ex_clip3_def)
  with s(1) have "\<exists>st'. saveClip (4000, 4001) ex_store ex_note = Inr (4, st')
         \<and> map clip_id (getAllClips st') = [1, 2, 3, 4]
         \<and> map createdAt (getAllClips st') = [1000, 2000, 3000, 4000]
         \<and> map updatedAt (getAllClips st') = [1000, 2001, 3000, 4001]"
    by (intro exI [of _ st'] conjI) simp_all
  with k ok run show ?thesis
    by (intro conjI) assumption+
qed

section \<open>Round trip\<close>

lemma saveAll_Inr:
  "store_ok st \<Longrightarrow> keygen st + length ds \<le> max_key + 1 \<Longrightarrow>
     \<exists>st'. saveAll ds st = Inr st' \<and> store_ok st'
       \<and> map stamped (records st') = map stamped (records st) @ ds"
proof (induction ds arbitrary: st)
  case Nil
  then show ?case by simp
next
  case (Cons x ds)
  obtain now d where x: "x = (now, d)" by (cases x)
  have k: "keygen st \<le> max_key"
    using Cons.prems(2) by simp
  let ?c = "\<lparr>clip_type = clip_type d, content = content d, tags = tags d, memo = memo d,
             filename = filename d, filesize = filesize d, mimeType = mimeType d,
             createdAt = fst now, updatedAt = snd now, clip_id = keygen st\<rparr>"
  let ?st = "\<lparr>records = records st @ [?c], keygen = keygen st + 1\<rparr>"
  have s: "saveClip now st d = Inr (keygen st, ?st)"
    by (rule saveClip_Inr [OF k])
  have ok: "store_ok ?st"
    using store_ok_save [OF Cons.prems(1) s] by simp
  have "keygen ?st + length ds \<le> max_key + 1"
    using Cons.prems(2) by simp
  from Cons.IH [OF ok this]
  obtain st' where st': "saveAll ds ?st = Inr st'" "store_ok st'"
    "map stamped (records st') = map stamped (records ?st) @ ds"
    by blast
  have "stamped ?c = (now, d)"
    by (simp add: stamped_def clip_data.truncate_def)
  then show ?case
    using st' by (simp add: x s)
qed

text \<open>
  C6. From a well-formed store with room in the key generator, saving \<open>N\<close> clips succeeds.
  A newly constructed application (empty search, no category, sort order \<open>newest\<close>) that
  loads the store then shows a permutation of the stored clips: what was there before and
  the \<open>N\<close> saved clips, each once. From a new store these are exactly the \<open>N\<close> clips.
\<close>

theorem round_trip:
  "store_ok st \<and> keygen st + length ds \<le> max_key + 1 \<longrightarrow>
     (\<exists>st' a'. saveAll ds st = Inr st'
        \<and> renderClips (loadClips (constructor st')) = Inr a'
        \<and> mset (rendered a') = mset (getAllClips st')
        \<and> mset (map stamped (rendered a')) = mset (map stamped (getAllClips st)) + mset ds
        \<and> length (rendered a') = length (getAllClips st) + length ds
        \<and> distinct (rendered a')
        \<and> distinct (map clip_id (rendered a')))"
proof
  assume pre: "store_ok st \<and> keygen st + length ds \<le> max_key + 1"
  then obtain st' where st': "saveAll ds st = Inr st'" "store_ok st'"
    "map stamped (records st') = map stamped (records st) @ ds"
    using saveAll_Inr [of st ds] by blast
  let ?a = "loadClips (constructor st')"
  let ?view = "js_sort (compareClips ''newest'') (records st')"
  have inputs: "currentSearch ?a = []" "currentFilter ?a = []" "currentSort ?a = ''newest''"
    "clips ?a = records st'"
    by (simp_all add: loadClips_def constructor_def getAllClips_def)
  obtain a' where a': "renderClips ?a = Inr a'" "rendered a' = ?view"
    by (simp add: renderClips_Inr inputs)
  have m: "mset ?view = mset (records st')"
    by (rule mset_js_sort_clips)
  have "mset (map stamped ?view) = mset (map stamped (records st'))"
    by (simp add: m)
  also have "\<dots> = mset (map stamped (records st)) + mset ds"
    unfolding st'(3) by simp
  finally have ms: "mset (map stamped ?view) = mset (map stamped (records st)) + mset ds" .
  have len: "length ?view = length (records st) + length ds"
    using arg_cong [OF ms, of size] by simp
  have dk: "distinct (map clip_id ?view)"
  proof -
    have "mset (map clip_id ?view) = mset (map clip_id (records st'))"
      by (simp add: m)
    then show ?thesis
      using store_ok_distinct [OF st'(2)] by (metis mset_eq_imp_distinct_iff)
  qed
  then have "distinct ?view"
    by (simp add: distinct_map)
  then show "\<exists>st' a'. saveAll ds st = Inr st'
        \<and> renderClips (loadClips (constructor st')) = Inr a'
        \<and> mset (rendered a') = mset (getAllClips st')
        \<and> mset (map stamped (rendered a')) = mset (map stamped (getAllClips st)) + mset ds
        \<and> length (rendered a') = length (getAllClips st) + length ds
        \<and> distinct (rendered a')
        \<and> distinct (map clip_id (rendered a'))"
    using st'(1) a' m ms len dk by (simp add: getAllClips_def)
qed

theorem round_trip_witness:
  "store_ok (db_init None) \<and> keygen (db_init None) + length ex_saves \<le> max_key + 1
   \<and> (\<exists>st' a'. saveAll ex_saves (db_init None) = Inr st'
         \<and> renderClips (loadClips (constructor st')) = Inr a'
         \<and> length (rendered a') = 2
         \<and> mset (map stamped (rendered a')) = mset ex_saves)"
proof -
  have pre: "store_ok (db_init None) \<and> keygen (db_init None) + length ex_saves \<le> max_key + 1"
    by (simp add: store_ok_fresh) (simp add: db_init_def ex_saves_def max_key_def)
  have empty: "getAllClips (db_init None) = []" and two: "length ex_saves = 2"
    by (simp_all add: getAllClips_def db_init_def ex_saves_def)
  from round_trip [of "db_init None" ex_saves] pre
  obtain st' a' where r: "saveAll ex_saves (db_init None) = Inr st'"
    "renderClips (loadClips (constructor st')) = Inr a'"
    "mset (map stamped (rendered a')) = mset (map stamped (getAllClips (db_init None))) + mset ex_saves"
    "length (rendered a') = length (getAllClips (db_init None)) + length ex_saves"
    by blast
  have "\<exists>st' a'. saveAll ex_saves (db_init None) = Inr st'
         \<and> renderClips (loadClips (constructor st')) = Inr a'
         \<and> length (rendered a') = 2
         \<and> mset (map stamped (rendered a')) = mset ex_saves"
    using r by (intro exI [of _ st'] exI [of _ a']) (simp add: empty two)
  with pre show ?thesis
    by (intro conjI) simp_all
qed

section \<open>Dropped files\<close>

lemma afterDrop_saved:
  assumes "saved = Inr (k, st)"
  shows "db (afterDrop msg saved a) = st
         \<and> toasts (afterDrop msg saved a) = toasts a @ [(Success, msg)]
         \<and> set (clips (afterDrop msg saved a)) = set (getAllClips st)"
proof -
  obtain a' where a': "reloadAndRender (a\<lparr>db := st\<rparr>) = Inr a'" "db a' = st"
    "toasts a' = toasts a" "set (clips a') = set (getAllClips st)"
    using reloadAndRender_Inr [of "a\<lparr>db := st\<rparr>"] by auto
  show ?thesis
    by (simp add: afterDrop_def assms a' showSuccess_def showToast_def)
qed

lemma dropKind_values: "dropKind f = Some kind \<Longrightarrow> kind = ''image'' \<or> kind = ''text''"
  by (auto simp: dropKind_def split: if_splits)

lemma readerOf_file: "readerOf f = Some r \<Longrightarrow> readerFile r = f"
  by (auto simp: readerOf_def readerFile_def split: option.splits if_splits)

lemma process_unsupported:
  "dropKind f = None \<Longrightarrow>
     processDroppedFile f a = (showError (snd (unsupportedToast f)) a, None)"
  by (auto simp: dropKind_def processDroppedFile_def unsupportedToast_def truthy_str_def Let_def
      split: if_splits)

lemma process_supported:
  "dropKind f = Some kind \<Longrightarrow> processDroppedFile f a = (a, readerOf f)"
  by (auto simp: dropKind_def processDroppedFile_def readerOf_def Let_def split: if_splits)

lemma onload_saved:
  assumes "readerOf f = Some r" "keygen (db a) \<le> max_key"
  shows "\<exists>c msg. records (db (onload now r a)) = records (db a) @ [c]
           \<and> keygen (db (onload now r a)) = keygen (db a) + 1
           \<and> summary c = dropSummary f \<and> clip_id c = keygen (db a)
           \<and> mimeType c = Some (ftype f) \<and> filesize c = Some (fsize f)
           \<and> content c = (if the (dropKind f) = ''image'' then readAsDataURL f else readAsText f)
           \<and> createdAt c = fst now \<and> updatedAt c = snd now
           \<and> toasts (onload now r a) = toasts a @ [(Success, msg)]
           \<and> c \<in> set (clips (onload now r a))"
proof -
  obtain kind where kind: "dropKind f = Some kind"
    using assms(1) by (auto simp: readerOf_def split: option.splits)
  show ?thesis
  proof (cases "kind = ''image''")
    case True
    then have r: "r = ImageReader f"
      using assms(1) kind by (simp add: readerOf_def)
    show ?thesis
      using afterDrop_saved [OF saveClip_Inr [OF assms(2)]]
      by (simp add: onload_def r kind True summary_def dropSummary_def dropTags_def
          getAllClips_def)
  next
    case False
    then have r: "r = TextReader f" and k: "kind = ''text''"
      using assms(1) kind dropKind_values [OF kind] by (auto simp: readerOf_def)
    show ?thesis
      using afterDrop_saved [OF saveClip_Inr [OF assms(2)]]
      by (simp add: onload_def r kind k summary_def dropSummary_def dropTags_def
          getAllClips_def)
  qed
qed

lemma handleDrop_loop:
  "\<exists>a1 rs. handleDrop files a = (a1, rs)
     \<and> db a1 = db a \<and> clips a1 = clips a
     \<and> toasts a1 = toasts a @ map unsupportedToast (filter (\<lambda>f. dropKind f = None) files)
     \<and> map readerFile rs = filter (\<lambda>f. dropKind f \<noteq> None) files
     \<and> list_all (\<lambda>r. readerOf (readerFile r) = Some r) rs"
proof (induction files arbitrary: a)
  case Nil
  then show ?case by simp
next
  case (Cons f files)
  show ?case
  proof (cases "dropKind f")
    case None
    let ?a = "showError (snd (unsupportedToast f)) a"
    have a: "db ?a = db a" "clips ?a = clips a" "toasts ?a = toasts a @ [unsupportedToast f]"
      by (simp_all add: showError_def showToast_def unsupportedToast_def)
    from Cons.IH [of ?a] obtain a1 rs where "handleDrop files ?a = (a1, rs)"
      "db a1 = db ?a" "clips a1 = clips ?a"
      "toasts a1 = toasts ?a @ map unsupportedToast (filter (\<lambda>f. dropKind f = None) files)"
      "map readerFile rs = filter (\<lambda>f. dropKind f \<noteq> None) files"
      "list_all (\<lambda>r. readerOf (readerFile r) = Some r) rs"
      by blast
    then show ?thesis
      by (simp add: process_unsupported [OF None] None a)
  next
    case (Some kind)
    then obtain r where r: "readerOf f = Some r"
      by (simp add: readerOf_def)
    from Cons.IH [of a] obtain a1 rs where "handleDrop files a = (a1, rs)"
      "db a1 = db a" "clips a1 = clips a"
      "toasts a1 = toasts a @ map unsupportedToast (filter (\<lambda>f. dropKind f = None) files)"
      "map readerFile rs = filter (\<lambda>f. dropKind f \<noteq> None) files"
      "list_all (\<lambda>r. readerOf (readerFile r) = Some r) rs"
      by blast
    then show ?thesis
      using readerOf_file [OF r]
      by (simp add: process_supported [OF Some] Some r)
  qed
qed

lemma loadEvents_batch:
  "list_all (\<lambda>e. readerOf (readerFile (snd e)) = Some (snd e)) events \<Longrightarrow>
   keygen (db a) + length events \<le> max_key + 1 \<Longrightarrow>
     map summary (records (db (loadEvents events a)))
       = map summary (records (db a)) @ map (\<lambda>e. dropSummary (readerFile (snd e))) events
     \<and> (\<exists>msgs. length msgs = length events
           \<and> toasts (loadEvents events a) = toasts a @ map (Pair Success) msgs)"
proof (induction events arbitrary: a)
  case Nil
  then show ?case by simp
next
  case (Cons e events)
  obtain now r where e: "e = (now, r)" by (cases e)
  have r: "readerOf (readerFile r) = Some r" and rest:
    "list_all (\<lambda>e. readerOf (readerFile (snd e)) = Some (snd e)) events"
    using Cons.prems(1) by (simp_all add: e)
  have k: "keygen (db a) \<le> max_key"
    using Cons.prems(2) by simp
  from onload_saved [OF r k, of now]
  obtain c msg where c: "records (db (onload now r a)) = records (db a) @ [c]"
    "keygen (db (onload now r a)) = keygen (db a) + 1"
    "summary c = dropSummary (readerFile r)"
    "toasts (onload now r a) = toasts a @ [(Success, msg)]"
    by blast
  have "keygen (db (onload now r a)) + length events \<le> max_key + 1"
    using Cons.prems(2) c(2) by simp
  from Cons.IH [OF rest this]
  obtain msgs where ih:
    "map summary (records (db (loadEvents events (onload now r a))))
       = map summary (records (db (onload now r a)))
           @ map (\<lambda>e. dropSummary (readerFile (snd e))) events"
    "length msgs = length events"
    "toasts (loadEvents events (onload now r a))
       = toasts (onload now r a) @ map (Pair Success) msgs"
    by blast
  have "toasts (loadEvents (e # events) a) = toasts a @ map (Pair Success) (msg # msgs)"
    by (simp add: e ih(3) c(4))
  moreover have "length (msg # msgs) = length (e # events)"
    by (simp add: ih(2))
  ultimately have "\<exists>msgs. length msgs = length (e # events)
      \<and> toasts (loadEvents (e # events) a) = toasts a @ map (Pair Success) msgs"
    by blast
  then show ?case
    by (simp add: e ih(1) c(1,3))
qed

text \<open>
  C7. \<open>processDroppedFile\<close> on a file that is neither image nor text shows the error, starts
  no reader and leaves the store unchanged. On an image or a text file it starts a reader
  for that file; when the reader loads, while the key generator is not used up, one clip of
  the file's kind with the kind's tags and the file's name is added and a success
  notification shown. \<open>handleDrop\<close> on a batch shows one error for each unsupported file,
  stores nothing, and starts one reader for each supported file, wherever the unsupported
  files stand in the batch. In whatever order the readers then load, with room in the key
  generator, the store gains one clip for each supported file, in load order, and the
  notifications are the errors followed by one success for each supported file.
\<close>

theorem dropped_files_classified:
  "(dropKind f = None \<longrightarrow>
      processDroppedFile f a = (showError (snd (unsupportedToast f)) a, None)
      \<and> db (fst (processDroppedFile f a)) = db a
      \<and> toasts (fst (processDroppedFile f a)) = toasts a @ [unsupportedToast f])
   \<and> (dropKind f \<noteq> None \<longrightarrow>
        (\<exists>r. processDroppedFile f a = (a, Some r) \<and> readerFile r = f
           \<and> (keygen (db b) \<le> max_key \<longrightarrow>
                (\<exists>c msg. getAllClips (db (onload now r b)) = getAllClips (db b) @ [c]
                   \<and> clip_type c = the (dropKind f) \<and> clip_type c \<in> {''image'', ''text''}
                   \<and> tags c = dropTags (clip_type c) \<and> filename c = Some (fname f)
                   \<and> toasts (onload now r b) = toasts b @ [(Success, msg)]))))
   \<and> (\<exists>a1 rs. handleDrop files a = (a1, rs)
         \<and> db a1 = db a
         \<and> toasts a1 = toasts a @ map unsupportedToast (filter (\<lambda>f. dropKind f = None) files)
         \<and> map readerFile rs = filter (\<lambda>f. dropKind f \<noteq> None) files
         \<and> (\<forall>events.
               mset (map snd events) = mset rs \<and> keygen (db a) + length events \<le> max_key + 1
               \<longrightarrow>
                 map summary (getAllClips (db (loadEvents events a1)))
                   = map summary (getAllClips (db a))
                       @ map (\<lambda>e. dropSummary (readerFile (snd e))) events
                 \<and> mset (map summary (getAllClips (db (loadEvents events a1))))
                   = mset (map summary (getAllClips (db a)))
                       + mset (map dropSummary (filter (\<lambda>f. dropKind f \<noteq> None) files))
                 \<and> (\<exists>msgs. length msgs = length rs
                       \<and> toasts (loadEvents events a1)
                           = toasts a
                               @ map unsupportedToast (filter (\<lambda>f. dropKind f = None) files)
                               @ map (Pair Success) msgs)))"
proof -
  have bad: "dropKind f = None \<longrightarrow>
      processDroppedFile f a = (showError (snd (unsupportedToast f)) a, None)
      \<and> db (fst (processDroppedFile f a)) = db a
      \<and> toasts (fst (processDroppedFile f a)) = toasts a @ [unsupportedToast f]"
    by (simp add: process_unsupported showError_def showToast_def unsupportedToast_def)
  have good: "dropKind f \<noteq> None \<longrightarrow>
        (\<exists>r. processDroppedFile f a = (a, Some r) \<and> readerFile r = f
           \<and> (keygen (db b) \<le> max_key \<longrightarrow>
                (\<exists>c msg. getAllClips (db (onload now r b)) = getAllClips (db b) @ [c]
                   \<and> clip_type c = the (dropKind f) \<and> clip_type c \<in> {''image'', ''text''}
                   \<and> tags c = dropTags (clip_type c) \<and> filename c = Some (fname f)
                   \<and> toasts (onload now r b) = toasts b @ [(Success, msg)])))"
  proof
    assume "dropKind f \<noteq> None"
    then obtain kind where kind: "dropKind f = Some kind"
      by auto
    then obtain r where r: "readerOf f = Some r"
      by (simp add: readerOf_def)
    have two: "kind \<in> {''image'', ''text''}"
      using dropKind_values [OF kind] by simp
    have loaded: "\<exists>c msg. getAllClips (db (onload now r b)) = getAllClips (db b) @ [c]
                   \<and> clip_type c = the (dropKind f) \<and> clip_type c \<in> {''image'', ''text''}
                   \<and> tags c = dropTags (clip_type c) \<and> filename c = Some (fname f)
                   \<and> toasts (onload now r b) = toasts b @ [(Success, msg)]"
      if room: "keygen (db b) \<le> max_key"
    proof -
      from onload_saved [OF r room, of now]
      obtain c msg where c: "records (db (onload now r b)) = records (db b) @ [c]"
        "summary c = dropSummary f"
        "toasts (onload now r b) = toasts b @ [(Success, msg)]"
        by blast
      show ?thesis
        using c two
        by (intro exI [of _ c] exI [of _ msg])
           (auto simp: getAllClips_def summary_def dropSummary_def kind)
    qed
    show "\<exists>r. processDroppedFile f a = (a, Some r) \<and> readerFile r = f
           \<and> (keygen (db b) \<le> max_key \<longrightarrow>
                (\<exists>c msg. getAllClips (db (onload now r b)) = getAllClips (db b) @ [c]
                   \<and> clip_type c = the (dropKind f) \<and> clip_type c \<in> {''image'', ''text''}
                   \<and> tags c = dropTags (clip_type c) \<and> filename c = Some (fname f)
                   \<and> toasts (onload now r b) = toasts b @ [(Success, msg)]))"
      using loaded readerOf_file [OF r]
      by (intro exI [of _ r]) (simp add: process_supported [OF kind] r)
  qed
  obtain a1 rs where loop: "handleDrop files a = (a1, rs)" "db a1 = db a"
    "toasts a1 = toasts a @ map unsupportedToast (filter (\<lambda>f. dropKind f = None) files)"
    "map readerFile rs = filter (\<lambda>f. dropKind f \<noteq> None) files"
    "list_all (\<lambda>r. readerOf (readerFile r) = Some r) rs"
    using handleDrop_loop [of files a] by blast
  have later: "map summary (getAllClips (db (loadEvents events a1)))
                   = map summary (getAllClips (db a))
                       @ map (\<lambda>e. dropSummary (readerFile (snd e))) events
                 \<and> mset (map summary (getAllClips (db (loadEvents events a1))))
                   = mset (map summary (getAllClips (db a)))
                       + mset (map dropSummary (filter (\<lambda>f. dropKind f \<noteq> None) files))
                 \<and> (\<exists>msgs. length msgs = length rs
                       \<and> toasts (loadEvents events a1)
                           = toasts a
                               @ map unsupportedToast (filter (\<lambda>f. dropKind f = None) files)
                               @ map (Pair Success) msgs)"
    if sched: "mset (map snd events) = mset rs \<and> keygen (db a) + length events \<le> max_key + 1"
    for events
  proof -
    have same: "set (map snd events) = set rs"
      using sched mset_eq_setD by blast
    have len: "length events = length rs"
      using sched mset_eq_length [of "map snd events" rs] by simp
    have started: "list_all (\<lambda>e. readerOf (readerFile (snd e)) = Some (snd e)) events"
      using loop(5) same by (auto simp: list_all_iff)
    have room: "keygen (db a1) + length events \<le> max_key + 1"
      using sched by (simp add: loop(2))
    from loadEvents_batch [OF started room]
    obtain msgs where b: "map summary (records (db (loadEvents events a1)))
        = map summary (records (db a1)) @ map (\<lambda>e. dropSummary (readerFile (snd e))) events"
      "length msgs = length events"
      "toasts (loadEvents events a1) = toasts a1 @ map (Pair Success) msgs"
      by blast
    have "mset (map (\<lambda>e. dropSummary (readerFile (snd e))) events)
            = image_mset (\<lambda>r. dropSummary (readerFile r)) (mset (map snd events))"
      by (simp add: multiset.map_comp comp_def)
    also have "\<dots> = image_mset (\<lambda>r. dropSummary (readerFile r)) (mset rs)"
      using sched by simp
    also have "\<dots> = mset (map dropSummary (map readerFile rs))"
      by (simp add: multiset.map_comp comp_def)
    finally have ms: "mset (map (\<lambda>e. dropSummary (readerFile (snd e))) events)
            = mset (map dropSummary (filter (\<lambda>f. dropKind f \<noteq> None) files))"
      by (simp add: loop(4))
    have order: "map summary (getAllClips (db (loadEvents events a1)))
                   = map summary (getAllClips (db a))
                       @ map (\<lambda>e. dropSummary (readerFile (snd e))) events"
      using b(1) by (simp add: getAllClips_def loop(2))
    have "mset (map summary (getAllClips (db (loadEvents events a1))))
                   = mset (map summary (getAllClips (db a)))
                       + mset (map (\<lambda>e. dropSummary (readerFile (snd e))) events)"
      unfolding order by simp
    then have count: "mset (map summary (getAllClips (db (loadEvents events a1))))
                   = mset (map summary (getAllClips (db a)))
                       + mset (map dropSummary (filter (\<lambda>f. dropKind f \<noteq> None) files))"
      by (simp only: ms)
    have "\<exists>msgs. length msgs = length rs
                       \<and> toasts (loadEvents events a1)
                           = toasts a
                               @ map unsupportedToast (filter (\<lambda>f. dropKind f = None) files)
                               @ map (Pair Success) msgs"
      using b(2,3) len by (intro exI [of _ msgs]) (simp add: loop(3))
    with order count show ?thesis
      by (intro conjI)
  qed
  have batch: "\<exists>a1 rs. handleDrop files a = (a1, rs)
         \<and> db a1 = db a
         \<and> toasts a1 = toasts a @ map unsupportedToast (filter (\<lambda>f. dropKind f = None) files)
         \<and> map readerFile rs = filter (\<lambda>f. dropKind f \<noteq> None) files
         \<and> (\<forall>events.
               mset (map snd events) = mset rs \<and> keygen (db a) + length events \<le> max_key + 1
               \<longrightarrow>
                 map summary (getAllClips (db (loadEvents events a1)))
                   = map summary (getAllClips (db a))
                       @ map (\<lambda>e. dropSummary (readerFile (snd e))) events
                 \<and> mset (map summary (getAllClips (db (loadEvents events a1))))
                   = mset (map summary (getAllClips (db a)))
                       + mset (map dropSummary (filter (\<lambda>f. dropKind f \<noteq> None) files))
                 \<and> (\<exists>msgs. length msgs = length rs
                       \<and> toasts (loadEvents events a1)
                           = toasts a
                               @ map unsupportedToast (filter (\<lambda>f. dropKind f = None) files)
                               @ map (Pair Success) msgs))"
    using loop(1-4) later by (intro exI [of _ a1] exI [of _ rs]) blast
  show ?thesis
    by (intro conjI bad good batch)
qed

theorem dropped_files_classified_witness:
  "dropKind ex_exe = None \<and> dropKind ex_png \<noteq> None \<and> keygen (db ex_new_app) \<le> max_key
   \<and> processDroppedFile ex_exe ex_new_app
       = (showError ''Unsupported file type: application/x-msdownload'' ex_new_app, None)
   \<and> getAllClips (db (fst (processDroppedFile ex_exe ex_new_app))) = []
   \<and> processDroppedFile ex_png ex_new_app = (ex_new_app, Some (ImageReader ex_png))
   \<and> map summary (getAllClips (db (onload (20, 20) (ImageReader ex_png) ex_new_app)))
       = [(''image'', [''dropped-file''], Some ''cat.png'')]
   \<and> (\<exists>a1. handleDrop ex_drop ex_new_app = (a1, [ImageReader ex_png, TextReader ex_md])
          \<and> getAllClips (db a1) = []
          \<and> toasts a1 = [(Failure, ''Unsupported file type: application/x-msdownload'')]
          \<and> mset (map snd ex_loads) = mset [ImageReader ex_png, TextReader ex_md]
          \<and> keygen (db ex_new_app) + length ex_loads \<le> max_key + 1
          \<and> map summary (getAllClips (db (loadEvents ex_loads a1)))
              = [(''text'', [''dropped-file'', ''text-file''], Some ''notes.md''),
                 (''image'', [''dropped-file''], Some ''cat.png'')]
          \<and> (\<exists>m1 m2. toasts (loadEvents ex_loads a1)
                = [(Failure, ''Unsupported file type: application/x-msdownload''),
                   (Success, m1), (Success, m2)]))"
proof -
  have kinds: "dropKind ex_exe = None" "dropKind ex_png = Some ''image''"
    "dropKind ex_md = Some ''text''"
    by (simp_all add: dropKind_def ex_exe_def ex_png_def ex_md_def startsWith_def endsWith_def)
  have new: "keygen (db ex_new_app) = 1" "getAllClips (db ex_new_app) = []"
    "toasts ex_new_app = []"
    by (simp_all add: ex_new_app_def constructor_def db_init_def getAllClips_def)
  have room: "keygen (db ex_new_app) \<le> max_key"
    "keygen (db ex_new_app) + length ex_loads \<le> max_key + 1"
    by (simp_all add: new ex_loads_def max_key_def)
  have shown: "unsupportedToast ex_exe
      = (Failure, ''Unsupported file type: application/x-msdownload'')"
    "dropSummary ex_png = (''image'', [''dropped-file''], Some ''cat.png'')"
    "dropSummary ex_md = (''text'', [''dropped-file'', ''text-file''], Some ''notes.md'')"
    using kinds by (simp_all add: unsupportedToast_def dropSummary_def dropTags_def)
      (simp_all add: ex_exe_def ex_png_def ex_md_def)
  have readers: "readerOf ex_png = Some (ImageReader ex_png)"
    "readerOf ex_md = Some (TextReader ex_md)"
    by (simp_all add: readerOf_def kinds)
  have order: "map snd ex_loads = [TextReader ex_md, ImageReader ex_png]"
    "mset (map snd ex_loads) = mset [ImageReader ex_png, TextReader ex_md]"
    by (simp_all add: ex_loads_def)
  have files: "filter (\<lambda>f. dropKind f = None) ex_drop = [ex_exe]"
    "filter (\<lambda>f. dropKind f \<noteq> None) ex_drop = [ex_png, ex_md]"
    by (simp_all add: ex_drop_def kinds)
  note exe = dropped_files_classified [of ex_exe ex_new_app ex_new_app "(20, 20)" ex_drop]
  note png = dropped_files_classified [of ex_png ex_new_app ex_new_app "(20, 20)" ex_drop]
  from exe kinds(1) have rejected: "processDroppedFile ex_exe ex_new_app
       = (showError (snd (unsupportedToast ex_exe)) ex_new_app, None)"
    "db (fst (processDroppedFile ex_exe ex_new_app)) = db ex_new_app"
    by blast+
  have one: "processDroppedFile ex_exe ex_new_app
       = (showError ''Unsupported file type: application/x-msdownload'' ex_new_app, None)"
    "getAllClips (db (fst (processDroppedFile ex_exe ex_new_app))) = []"
    using rejected(1) apply (simp only: shown snd_conv)
    unfolding rejected(2) by (rule new(2))
  from png kinds(2) room(1)
  obtain r c where r: "processDroppedFile ex_png ex_new_app = (ex_new_app, Some r)"
    "getAllClips (db (onload (20, 20) r ex_new_app)) = getAllClips (db ex_new_app) @ [c]"
    "clip_type c = ''image''" "tags c = dropTags (clip_type c)"
    "filename c = Some (fname ex_png)"
    by auto
  have r_is: "r = ImageReader ex_png"
    using r(1) by (simp add: process_supported [OF kinds(2)] readers)
  have two: "processDroppedFile ex_png ex_new_app = (ex_new_app, Some (ImageReader ex_png))"
    "map summary (getAllClips (db (onload (20, 20) (ImageReader ex_png) ex_new_app)))
       = [(''image'', [''dropped-file''], Some ''cat.png'')]"
    using r by (simp_all add: r_is new summary_def dropTags_def) (simp add: ex_png_def)
  from png obtain a1 rs where loop: "handleDrop ex_drop ex_new_app = (a1, rs)"
    "db a1 = db ex_new_app"
    "toasts a1 = toasts ex_new_app
       @ map unsupportedToast (filter (\<lambda>f. dropKind f = None) ex_drop)"
    and sched: "\<And>events. mset (map snd events) = mset rs
        \<and> keygen (db ex_new_app) + length events \<le> max_key + 1 \<Longrightarrow>
          map summary (getAllClips (db (loadEvents events a1)))
            = map summary (getAllClips (db ex_new_app))
                @ map (\<lambda>e. dropSummary (readerFile (snd e))) events
          \<and> (\<exists>msgs. length msgs = length rs
                \<and> toasts (loadEvents events a1)
                    = toasts ex_new_app
                        @ map unsupportedToast (filter (\<lambda>f. dropKind f = None) ex_drop)
                        @ map (Pair Success) msgs)"
    by blast
  have rs: "rs = [ImageReader ex_png, TextReader ex_md]"
    using loop(1)
    by (auto simp: ex_drop_def process_supported [OF kinds(2)] process_supported [OF kinds(3)]
        process_unsupported [OF kinds(1)] readers split: prod.splits)
  from sched [of ex_loads] order(2) room(2)
  obtain msgs where fin: "map summary (getAllClips (db (loadEvents ex_loads a1)))
      = map summary (getAllClips (db ex_new_app))
          @ map (\<lambda>e. dropSummary (readerFile (snd e))) ex_loads"
    "length msgs = length rs"
    "toasts (loadEvents ex_loads a1)
       = toasts ex_new_app @ map unsupportedToast (filter (\<lambda>f. dropKind f = None) ex_drop)
           @ map (Pair Success) msgs"
    unfolding rs by blast
  obtain m1 m2 where msgs: "msgs = [m1, m2]"
    using fin(2) unfolding rs by (cases msgs; cases "tl msgs") auto
  have stored: "map summary (getAllClips (db (loadEvents ex_loads a1)))
              = [(''text'', [''dropped-file'', ''text-file''], Some ''notes.md''),
                 (''image'', [''dropped-file''], Some ''cat.png'')]"
    unfolding fin(1) by (simp add: new ex_loads_def readerFile_def shown)
  have told: "\<exists>m1 m2. toasts (loadEvents ex_loads a1)
                = [(Failure, ''Unsupported file type: application/x-msdownload''),
                   (Success, m1), (Success, m2)]"
    unfolding fin(3) by (simp add: new files shown msgs)
  have batch: "\<exists>a1. handleDrop ex_drop ex_new_app = (a1, [ImageReader ex_png, TextReader ex_md])
          \<and> getAllClips (db a1) = []
          \<and> toasts a1 = [(Failure, ''Unsupported file type: application/x-msdownload'')]
          \<and> mset (map snd ex_loads) = mset [ImageReader ex_png, TextReader ex_md]
          \<and> keygen (db ex_new_app) + length ex_loads \<le> max_key + 1
          \<and> map summary (getAllClips (db (loadEvents ex_loads a1)))
              = [(''text'', [''dropped-file'', ''text-file''], Some ''notes.md''),
                 (''image'', [''dropped-file''], Some ''cat.png'')]
          \<and> (\<exists>m1 m2. toasts (loadEvents ex_loads a1)
                = [(Failure, ''Unsupported file type: application/x-msdownload''),
                   (Success, m1), (Success, m2)])"
    using loop(1) order(2) room(2) stored told
    by (intro exI [of _ a1]) (simp add: rs loop(2,3) new files shown)
  have k2: "dropKind ex_png \<noteq> None"
    by (simp add: kinds)
  show ?thesis
    by (intro conjI kinds(1) k2 room(1) one two batch)
qed

section \<open>Content of stored clips\<close>

text \<open>
  What each save path stores as content: the text modal the trimmed text, which it has
  checked to be non-empty; the image modal and a dropped image a data URL, which is never
  empty; a dropped text file the text of the file, unchecked.
\<close>

lemma readAsDataURL_nonempty: "readAsDataURL f \<noteq> []"
  by (simp add: readAsDataURL_def)

lemma saveTextClip_content:
  "records (db (saveTextClip now form a)) = records (db a)
   \<or> (\<exists>c. records (db (saveTextClip now form a)) = records (db a) @ [c]
          \<and> clip_type c = ''text'' \<and> content c = trim (text_content form) \<and> content c \<noteq> [])"
proof (cases "trim (text_content form) \<noteq> [] \<and> keygen (db a) \<le> max_key")
  case True
  let ?d = "\<lparr>clip_type = ''text'', content = trim (text_content form),
             tags = parseTags (text_tags form), memo = Some (trim (text_memo form)),
             filename = None, filesize = None, mimeType = None\<rparr>"
  obtain k st where s: "saveClip now (db a) ?d = Inr (k, st)"
    "records st = records (db a) @
       [\<lparr>clip_type = clip_type ?d, content = content ?d, tags = tags ?d, memo = memo ?d,
         filename = filename ?d, filesize = filesize ?d, mimeType = mimeType ?d,
         createdAt = fst now, updatedAt = snd now, clip_id = keygen (db a)\<rparr>]"
    using True by (simp add: saveClip_Inr)
  obtain a' where a': "reloadAndRender (a\<lparr>db := st\<rparr>) = Inr a'" "db a' = st"
    using reloadAndRender_Inr [of "a\<lparr>db := st\<rparr>"] by auto
  have "db (saveTextClip now form a) = st"
    using True by (simp add: saveTextClip_def Let_def truthy_str_def s(1) a' showSuccess_def showToast_def)
  then show ?thesis
    using True by (simp add: s(2))
next
  case False
  then have "db (saveTextClip now form a) = db a"
    by (auto simp: saveTextClip_def Let_def truthy_str_def saveClip_Inl showError_def showToast_def)
  then show ?thesis by simp
qed

lemma saveImageClip_content:
  "records (db (saveImageClip now form a)) = records (db a)
   \<or> (\<exists>c f. records (db (saveImageClip now form a)) = records (db a) @ [c]
          \<and> image_input form = Some f
          \<and> clip_type c = ''image'' \<and> content c = readAsDataURL f \<and> content c \<noteq> [])"
proof (cases "image_input form \<noteq> None \<and> keygen (db a) \<le> max_key")
  case True
  then obtain f where f: "image_input form = Some f" by auto
  let ?d = "\<lparr>clip_type = ''image'', content = readAsDataURL f,
             tags = parseTags (image_tags form), memo = Some (trim (image_memo form)),
             filename = Some (fname f), filesize = Some (fsize f), mimeType = None\<rparr>"
  obtain k st where s: "saveClip now (db a) ?d = Inr (k, st)"
    "records st = records (db a) @
       [\<lparr>clip_type = clip_type ?d, content = content ?d, tags = tags ?d, memo = memo ?d,
         filename = filename ?d, filesize = filesize ?d, mimeType = mimeType ?d,
         createdAt = fst now, updatedAt = snd now, clip_id = keygen (db a)\<rparr>]"
    using True by (simp add: saveClip_Inr)
  obtain a' where a': "reloadAndRender (a\<lparr>db := st\<rparr>) = Inr a'" "db a' = st"
    using reloadAndRender_Inr [of "a\<lparr>db := st\<rparr>"] by auto
  have "db (saveImageClip now form a) = st"
    by (simp add: saveImageClip_def Let_def f s(1) a' showSuccess_def showToast_def)
  then show ?thesis
    by (simp add: s(2) f readAsDataURL_nonempty)
next
  case False
  then have "db (saveImageClip now form a) = db a"
    by (auto simp: saveImageClip_def Let_def saveClip_Inl showError_def showToast_def
        split: option.splits)
  then show ?thesis by simp
qed

lemma dropped_content:
  "readerOf f = Some r \<Longrightarrow> keygen (db a) \<le> max_key \<Longrightarrow>
     \<exists>c. records (db (onload now r a)) = records (db a) @ [c]
       \<and> clip_type c = the (dropKind f)
       \<and> content c = (if the (dropKind f) = ''image'' then readAsDataURL f else fbytes f)"
  using onload_saved [of f r a now]
  by (auto simp: readAsText_def summary_def dropSummary_def)

text \<open>
  C4. Every stored clip should have a non-empty content. Dropping an empty text file on a
  new application starts a text reader, and when it has loaded the store holds a text clip
  whose content is the empty string: the dropped-file path lacks the check that the text
  modal makes.
\<close>

theorem dropped_empty_text_file_stored:
  "processDroppedFile ex_empty_txt ex_new_app = (ex_new_app, Some (TextReader ex_empty_txt))
   \<and> map (\<lambda>c. (clip_type c, content c, filename c))
         (getAllClips (db (onload (10, 10) (TextReader ex_empty_txt) ex_new_app)))
       = [(''text'', [], Some ''empty.txt'')]"
proof -
  have kind: "dropKind ex_empty_txt = Some ''text''"
    by (simp add: dropKind_def ex_empty_txt_def startsWith_def)
  have reader: "readerOf ex_empty_txt = Some (TextReader ex_empty_txt)"
    by (simp add: readerOf_def kind)
  have new: "keygen (db ex_new_app) \<le> max_key" "records (db ex_new_app) = []"
    by (simp_all add: ex_new_app_def constructor_def db_init_def max_key_def)
  from onload_saved [OF reader new(1), of "(10, 10)"]
  obtain c where c: "records (db (onload (10, 10) (TextReader ex_empty_txt) ex_new_app))
      = records (db ex_new_app) @ [c]" "summary c = dropSummary ex_empty_txt"
    "content c = readAsText ex_empty_txt"
    by (auto simp: kind)
  have "clip_type c = ''text''" "filename c = Some ''empty.txt''" "content c = []"
    using c(2,3) kind
    by (simp_all add: summary_def dropSummary_def readAsText_def) (simp_all add: ex_empty_txt_def)
  then have "map (\<lambda>c. (clip_type c, content c, filename c))
         (getAllClips (db (onload (10, 10) (TextReader ex_empty_txt) ex_new_app)))
       = [(''text'', [], Some ''empty.txt'')]"
    by (simp add: getAllClips_def c(1) new(2))
  then show ?thesis
    by (simp add: process_supported [OF kind] reader)
qed

end
